theory Spec2Isabelle
  imports Main "HOL-Library.Multiset"
begin

section \<open>Errors and outcomes of coroutines\<close>

text \<open>
  The exceptions that \<^verbatim>\<open>aitertools.py\<close> raises or lets escape. \<open>UserException\<close> stands
  for an instance of Python's class \<^verbatim>\<open>Exception\<close> raised by a function supplied by the
  caller; the payload is its message.
\<close>

datatype error =
    ValueError
  | AttributeError
  | InvalidStateError
  | StopAsyncIteration
  | UserException string

text \<open>
  A coroutine either returns, raises, or is parked at an \<^verbatim>\<open>await\<close> that cannot
  complete in the present state.
\<close>

datatype 'r outcome = Returned 'r | Raised error | Suspended

section \<open>Transform combinators\<close>

subsection \<open>\<^verbatim>\<open>map_aiter\<close>\<close>

text \<open>
  The upstream of \<^verbatim>\<open>map_aiter\<close> is a finite stream, given as the list of the items
  it yields. \<open>map_f x = Inl e\<close> says that \<^verbatim>\<open>map_f(x)\<close> raises the \<^verbatim>\<open>Exception\<close>
  instance \<open>e\<close>, \<open>Inr y\<close> that it returns \<open>y\<close>. The generator yields values and calls
  \<^verbatim>\<open>logging.exception\<close>; the result is the pair of the values yielded and of the log
  records written (the exception with the offending item), both in order.
\<close>

fun map_aiter_loop :: "('a \<Rightarrow> error + 'b) \<Rightarrow> 'a list \<Rightarrow> 'b list \<times> (error \<times> 'a) list" where
  "map_aiter_loop map_f [] = ([], [])"
| "map_aiter_loop map_f (x # xs) =
     (case map_f x of
        Inr y \<Rightarrow> (case map_aiter_loop map_f xs of (ys, lg) \<Rightarrow> (y # ys, lg))
      | Inl e \<Rightarrow> (case map_aiter_loop map_f xs of (ys, lg) \<Rightarrow> (ys, (e, x) # lg)))"

definition map_aiter :: "bool \<Rightarrow> ('a \<Rightarrow> error + 'b) \<Rightarrow> 'a list \<Rightarrow> 'b list \<times> (error \<times> 'a) list" where
  "map_aiter iscoroutinefunction map_f aiter =
     (if iscoroutinefunction then map_aiter_loop map_f aiter
      else map_aiter_loop map_f aiter)"

text \<open>Python values for the worked example: integers and strings.\<close>

datatype pyval = PInt int | PStr string

definition double_or_raise :: "pyval \<Rightarrow> error + pyval" where
  "double_or_raise v = (case v of PInt n \<Rightarrow> Inr (PInt (2 * n)) | PStr s \<Rightarrow> Inl (UserException ''not a number''))"

subsection \<open>\<^verbatim>\<open>azip\<close>\<close>

text \<open>
  The inputs of \<^verbatim>\<open>azip\<close> are finite streams, each the list of the items it has yet to
  yield. \<open>next_list\<close> is the list comprehension
  \<^verbatim>\<open>[await _.__anext__() for _ in anext_list]\<close>: the streams are advanced one after the
  other, left to right, and the first \<^verbatim>\<open>StopAsyncIteration\<close> aborts the comprehension,
  so that the streams to the right are not touched. It returns the tuple (\<open>None\<close> for
  \<^verbatim>\<open>StopAsyncIteration\<close>) and the streams as they are left.
\<close>

fun next_list :: "'a list list \<Rightarrow> 'a list option \<times> 'a list list" where
  "next_list [] = (Some [], [])"
| "next_list ([] # ss) = (None, [] # ss)"
| "next_list ((x # s) # ss) =
     (case next_list ss of
        (None, ss') \<Rightarrow> (None, s # ss')
      | (Some xs, ss') \<Rightarrow> (Some (x # xs), s # ss'))"

text \<open>
  \<open>azip n ss\<close> is the generator pulled by its consumer at most \<open>n\<close> times: the tuples
  yielded, whether the generator has ended (the \<^verbatim>\<open>break\<close>), and the input streams as
  they are left.
\<close>

fun azip :: "nat \<Rightarrow> 'a list list \<Rightarrow> 'a list list \<times> bool \<times> 'a list list" where
  "azip 0 ss = ([], False, ss)"
| "azip (Suc n) ss =
     (case next_list ss of
        (None, ss') \<Rightarrow> ([], True, ss')
      | (Some t, ss') \<Rightarrow> (case azip n ss' of (ts, ended, ss'') \<Rightarrow> (t # ts, ended, ss'')))"

text \<open>
  What the inputs look like once a zip of \<open>m\<close> full rounds has ended: the streams in front
  of the first one that holds exactly \<open>m\<close> items have been advanced \<open>m + 1\<close> times, that
  one and those behind it \<open>m\<close> times.
\<close>

fun left_after :: "nat \<Rightarrow> 'a list list \<Rightarrow> 'a list list" where
  "left_after m [] = []"
| "left_after m (s # ss) =
     (if length s = m then drop m s # map (drop m) ss
      else drop (Suc m) s # left_after m ss)"

definition shortest :: "'a list list \<Rightarrow> nat" where
  "shortest ss = Min (set (map length ss))"

definition rounds :: "nat \<Rightarrow> 'a list list \<Rightarrow> 'a list list" where
  "rounds m ss = map (\<lambda>k. map (\<lambda>s. s ! k) ss) [0..<m]"

section \<open>Linked streams and the push producer\<close>

text \<open>
  The chain of a linked stream is made of \<^verbatim>\<open>asyncio.Future\<close> objects: one is pending,
  or holds the result \<^verbatim>\<open>(item, next_future)\<close>, or is cancelled. The futures live in a
  store; the address of a future is its index, and \<^verbatim>\<open>asyncio.Future()\<close> allocates
  a pending future at the end. An object only ever holds addresses that were allocated
  before, so every address read below is inside the store.
\<close>

datatype 'a future = Pending | Result 'a nat | Cancelled

type_synonym 'a heap = "'a future list"

definition Future :: "'a heap \<Rightarrow> 'a heap \<times> nat" where
  "Future h = (h @ [Pending], length h)"

definition fut_done :: "'a heap \<Rightarrow> nat \<Rightarrow> bool" where
  "fut_done h a = (h ! a \<noteq> Pending)"

definition fut_cancelled :: "'a heap \<Rightarrow> nat \<Rightarrow> bool" where
  "fut_cancelled h a = (h ! a = Cancelled)"

definition fut_set_result :: "'a heap \<Rightarrow> nat \<Rightarrow> 'a \<times> nat \<Rightarrow> error + 'a heap" where
  "fut_set_result h a r =
     (if h ! a = Pending then Inr (h[a := Result (fst r) (snd r)]) else Inl InvalidStateError)"

definition fut_cancel :: "'a heap \<Rightarrow> nat \<Rightarrow> 'a heap" where
  "fut_cancel h a = (if h ! a = Pending then h[a := Cancelled] else h)"

text \<open>
  An instance of \<^verbatim>\<open>linked_aiter\<close>. The fields are the Python attributes \<^verbatim>\<open>_tail\<close>,
  \<^verbatim>\<open>_lock\<close> (the value of the semaphore), \<^verbatim>\<open>_next_callback_f\<close> (the name of the
  callback, if one was given) and \<^verbatim>\<open>_next_task\<close> (the future handed to the callback
  scheduled last; the attribute exists only once a callback was scheduled).
\<close>

record linked_aiter =
  priv_tail :: nat
  priv_lock :: nat
  priv_next_callback_f :: "string option"
  priv_next_task :: "nat option"

record push_aiter = linked_aiter +
  priv_head :: nat

datatype attribute =
    AFuture nat
  | ASemaphore nat
  | ACallback "string option"
  | AMethod string

text \<open>
  Attribute lookup \<^verbatim>\<open>self.name\<close>: the instance attributes set by \<^verbatim>\<open>__init__\<close> and
  \<^verbatim>\<open>__anext__\<close>, then the methods of the class. Neither class defines
  \<^verbatim>\<open>__getattr__\<close>, so any other name raises \<^verbatim>\<open>AttributeError\<close>.
\<close>

definition linked_aiter_attrs :: "'z linked_aiter_scheme \<Rightarrow> (string \<times> attribute) list" where
  "linked_aiter_attrs self =
     [(''_tail'', AFuture (priv_tail self)),
      (''_lock'', ASemaphore (priv_lock self)),
      (''_next_callback_f'', ACallback (priv_next_callback_f self))]
     @ (case priv_next_task self of None \<Rightarrow> [] | Some t \<Rightarrow> [(''_next_task'', AFuture t)])
     @ [(''__init__'', AMethod ''linked_aiter.__init__''),
        (''split'', AMethod ''linked_aiter.split''),
        (''__aiter__'', AMethod ''linked_aiter.__aiter__''),
        (''__anext__'', AMethod ''linked_aiter.__anext__'')]"

definition push_aiter_attrs :: "push_aiter \<Rightarrow> (string \<times> attribute) list" where
  "push_aiter_attrs self =
     [(''_head'', AFuture (priv_head self)),
      (''__init__'', AMethod ''push_aiter.__init__''),
      (''push'', AMethod ''push_aiter.push''),
      (''push_nowait'', AMethod ''push_aiter.push_nowait''),
      (''stop'', AMethod ''push_aiter.stop'')]
     @ linked_aiter_attrs self"

definition getattr :: "(string \<times> attribute) list \<Rightarrow> string \<Rightarrow> error + attribute" where
  "getattr attrs name = (case map_of attrs name of None \<Rightarrow> Inl AttributeError | Some v \<Rightarrow> Inr v)"

text \<open>\<^verbatim>\<open>linked_aiter.__init__(tail=None, next_callback_f=None)\<close>.\<close>

definition linked_aiter_init :: "'a heap \<Rightarrow> nat option \<Rightarrow> string option \<Rightarrow> 'a heap \<times> linked_aiter" where
  "linked_aiter_init h tail next_callback_f =
     (case (case tail of Some t \<Rightarrow> (h, t) | None \<Rightarrow> Future h) of
        (h', t) \<Rightarrow>
          (h', \<lparr>priv_tail = t, priv_lock = 1, priv_next_callback_f = next_callback_f,
                priv_next_task = None\<rparr>))"

text \<open>
  \<^verbatim>\<open>linked_aiter.split(is_active=True)\<close>. The first argument is the attribute table of
  the class of \<open>self\<close> (\<open>linked_aiter_attrs\<close> or \<open>push_aiter_attrs\<close>). The source reads
  \<^verbatim>\<open>self._next_callback_f\<close> and then \<^verbatim>\<open>self.tail\<close>.
\<close>

definition split ::
  "('s \<Rightarrow> (string \<times> attribute) list) \<Rightarrow> 'a heap \<Rightarrow> 's \<Rightarrow> bool \<Rightarrow> error + ('a heap \<times> linked_aiter)" where
  "split attrs h self is_active =
     (case (if is_active then getattr (attrs self) ''_next_callback_f'' else Inr (ACallback None)) of
        Inl e \<Rightarrow> Inl e
      | Inr cb \<Rightarrow>
          (case getattr (attrs self) ''tail'' of
             Inl e \<Rightarrow> Inl e
           | Inr t \<Rightarrow>
               Inr (linked_aiter_init h
                      (case t of AFuture a \<Rightarrow> Some a | _ \<Rightarrow> None)
                      (case cb of ACallback c \<Rightarrow> c | _ \<Rightarrow> None))))"

text \<open>
  \<^verbatim>\<open>linked_aiter.__anext__\<close>. The lock is taken on entry and released on exit, so a
  call that returns or raises leaves it as it was. Awaiting a pending future parks the
  call (\<open>Suspended\<close>, nothing changed: the call goes on from the same state once the future
  is resolved); awaiting a cancelled future raises \<^verbatim>\<open>CancelledError\<close>, which the handler
  turns into \<^verbatim>\<open>StopAsyncIteration\<close>.
\<close>

definition linked_aiter_anext ::
  "'a heap \<Rightarrow> 'z linked_aiter_scheme \<Rightarrow> 'a outcome \<times> 'z linked_aiter_scheme" where
  "linked_aiter_anext h self =
     (case h ! priv_tail self of
        Pending \<Rightarrow> (Suspended, self)
      | Cancelled \<Rightarrow> (Raised StopAsyncIteration, self)
      | Result v nxt \<Rightarrow>
          (Returned v,
           if priv_next_callback_f self \<noteq> None \<and> \<not> fut_done h nxt
           then self\<lparr>priv_tail := nxt, priv_next_task := Some nxt\<rparr>
           else self\<lparr>priv_tail := nxt\<rparr>))"

text \<open>\<^verbatim>\<open>push_aiter.__init__\<close>, \<^verbatim>\<open>push_nowait\<close>, \<^verbatim>\<open>push\<close> and \<^verbatim>\<open>stop\<close>.\<close>

definition push_aiter_init :: "'a heap \<Rightarrow> 'a heap \<times> push_aiter" where
  "push_aiter_init h =
     (case Future h of
        (h', f) \<Rightarrow>
          (h', \<lparr>priv_tail = f, priv_lock = 1, priv_next_callback_f = None,
                priv_next_task = None, priv_head = f\<rparr>))"

definition push_aiter_push_nowait ::
  "'a heap \<times> push_aiter \<Rightarrow> 'a \<Rightarrow> error + ('a heap \<times> push_aiter)" where
  "push_aiter_push_nowait s item =
     (case s of (h, self) \<Rightarrow>
        if fut_cancelled h (priv_head self) then Inl ValueError
        else (case Future h of
                (h1, new_head) \<Rightarrow>
                  (case fut_set_result h1 (priv_head self) (item, new_head) of
                     Inl e \<Rightarrow> Inl e
                   | Inr h2 \<Rightarrow> Inr (h2, self\<lparr>priv_head := new_head\<rparr>))))"

text \<open>
  \<^verbatim>\<open>push\<close> is a coroutine whose body is the call of \<^verbatim>\<open>push_nowait\<close>: it holds no
  \<^verbatim>\<open>await\<close>, so it never yields \<open>Suspended\<close>.
\<close>

definition push_aiter_push ::
  "'a heap \<times> push_aiter \<Rightarrow> 'a \<Rightarrow> unit outcome \<times> ('a heap \<times> push_aiter)" where
  "push_aiter_push s item =
     (case push_aiter_push_nowait s item of
        Inl e \<Rightarrow> (Raised e, s)
      | Inr s' \<Rightarrow> (Returned (), s'))"

definition push_aiter_stop :: "'a heap \<times> push_aiter \<Rightarrow> 'a heap \<times> push_aiter" where
  "push_aiter_stop s =
     (case s of (h, self) \<Rightarrow>
        if \<not> fut_done h (priv_head self) then (fut_cancel h (priv_head self), self) else s)"

text \<open>
  The calls a program can make on a push producer, and the state they lead to from a
  fresh producer. \<open>Anext\<close> advances the producer's own cursor. A call that raises leaves
  the state as it is.
\<close>

datatype 'a call = Push 'a | PushNowait 'a | Stop | Anext

fun apply_call :: "'a heap \<times> push_aiter \<Rightarrow> 'a call \<Rightarrow> 'a heap \<times> push_aiter" where
  "apply_call s (Push x) = snd (push_aiter_push s x)"
| "apply_call s (PushNowait x) = (case push_aiter_push_nowait s x of Inl e \<Rightarrow> s | Inr s' \<Rightarrow> s')"
| "apply_call s Stop = push_aiter_stop s"
| "apply_call s Anext = (fst s, snd (linked_aiter_anext (fst s) (snd s)))"

definition run_calls :: "'a heap \<Rightarrow> 'a call list \<Rightarrow> 'a heap \<times> push_aiter" where
  "run_calls h0 cs = foldl apply_call (push_aiter_init h0) cs"

text \<open>
  The head of a producer is allocated, and pending or cancelled; a producer is stopped
  when its head is cancelled.
\<close>

definition head_ok :: "'a heap \<times> push_aiter \<Rightarrow> bool" where
  "head_ok s = (priv_head (snd s) < length (fst s) \<and> fst s ! priv_head (snd s) \<in> {Pending, Cancelled})"

definition is_stopped :: "'a heap \<times> push_aiter \<Rightarrow> bool" where
  "is_stopped s = fut_cancelled (fst s) (priv_head (snd s))"

text \<open>
  \<open>drain n s\<close>: the producer's own cursor advanced until it is parked or has ended, at
  most \<open>n\<close> times: the items returned, how the last call came out, and the state.
\<close>

fun drain :: "nat \<Rightarrow> 'a heap \<times> push_aiter \<Rightarrow> 'a list \<times> 'a outcome option \<times> ('a heap \<times> push_aiter)" where
  "drain 0 s = ([], None, s)"
| "drain (Suc n) s =
     (case linked_aiter_anext (fst s) (snd s) of
        (Returned v, self') \<Rightarrow>
          (case drain n (fst s, self') of (vs, r, s') \<Rightarrow> (v # vs, r, s'))
      | (r, self') \<Rightarrow> ([], Some r, (fst s, self')))"


text \<open>
  \<open>chain h0 xs st\<close>: the store \<open>h0\<close> followed by a chain that holds the items
  \<open>xs\<close> and ends in a head in state \<open>st\<close>.
\<close>

definition chain :: "'a heap \<Rightarrow> 'a list \<Rightarrow> 'a future \<Rightarrow> 'a heap" where
  "chain h0 xs st =
     h0 @ map (\<lambda>k. Result (xs ! k) (length h0 + Suc k)) [0..<length xs] @ [st]"

section \<open>The queue-backed stream\<close>

text \<open>
  \<^verbatim>\<open>asyncio.Queue\<close>: the buffered items, oldest first, and \<^verbatim>\<open>maxsize\<close>. A queue
  whose \<^verbatim>\<open>maxsize\<close> is zero or negative is never full.
\<close>

record 'a queue =
  q_items :: "'a list"
  q_maxsize :: int

definition Queue :: "int \<Rightarrow> 'a queue" where
  "Queue maxsize = \<lparr>q_items = [], q_maxsize = maxsize\<rparr>"

definition queue_full :: "'a queue \<Rightarrow> bool" where
  "queue_full q = (if q_maxsize q \<le> 0 then False else q_maxsize q \<le> int (length (q_items q)))"

definition queue_empty :: "'a queue \<Rightarrow> bool" where
  "queue_empty q = (q_items q = [])"

definition queue_put :: "'a queue \<Rightarrow> 'a \<Rightarrow> 'a queue" where
  "queue_put q x = q\<lparr>q_items := q_items q @ [x]\<rparr>"

text \<open>
  An instance of \<^verbatim>\<open>q_aiter\<close>: the attributes \<^verbatim>\<open>_q\<close>, \<^verbatim>\<open>_stopping\<close> (whether that
  future is done), \<^verbatim>\<open>_stopped\<close> and \<^verbatim>\<open>_full_callback\<close> (whether one was given).
  \<open>full_callback_calls\<close> records the items the callback was called with.
\<close>

record 'a q_aiter =
  priv_q :: "'a queue"
  priv_stopping :: bool
  priv_stopped :: bool
  priv_full_callback :: bool
  full_callback_calls :: "'a list"

definition q_aiter_init :: "'a queue option \<Rightarrow> int \<Rightarrow> bool \<Rightarrow> 'a q_aiter" where
  "q_aiter_init q maxsize full_callback =
     \<lparr>priv_q = (case q of None \<Rightarrow> Queue maxsize | Some q' \<Rightarrow> q'),
      priv_stopping = False, priv_stopped = False,
      priv_full_callback = full_callback, full_callback_calls = []\<rparr>"

definition q_aiter_stop :: "('a, 'z) q_aiter_scheme \<Rightarrow> ('a, 'z) q_aiter_scheme" where
  "q_aiter_stop self = (if \<not> priv_stopping self then self\<lparr>priv_stopping := True\<rparr> else self)"

definition q_aiter_full :: "('a, 'z) q_aiter_scheme \<Rightarrow> bool" where
  "q_aiter_full self = queue_full (priv_q self)"

text \<open>
  \<^verbatim>\<open>q_aiter.push(*items)\<close>. The coroutine is parked inside \<^verbatim>\<open>self._q.put\<close> while the
  queue is full: the result is then \<open>Suspended\<close> with the items not yet buffered, the
  first of which is the one \<^verbatim>\<open>put\<close> holds. \<open>q_aiter_push_resume\<close> is the coroutine
  going on from there: the pending \<^verbatim>\<open>put\<close> completes once the queue has room, and
  the loop goes on with the items that remain.
\<close>

fun q_aiter_push ::
  "('a, 'z) q_aiter_scheme \<Rightarrow> 'a list \<Rightarrow> unit outcome \<times> ('a, 'z) q_aiter_scheme \<times> 'a list" where
  "q_aiter_push self [] = (Returned (), self, [])"
| "q_aiter_push self (x # xs) =
     (if priv_stopping self then (Raised ValueError, self, x # xs)
      else if queue_full (priv_q self)
      then (Suspended,
            (if priv_full_callback self
             then self\<lparr>full_callback_calls := full_callback_calls self @ [x]\<rparr> else self),
            x # xs)
      else q_aiter_push (self\<lparr>priv_q := queue_put (priv_q self) x\<rparr>) xs)"

fun q_aiter_push_resume ::
  "('a, 'z) q_aiter_scheme \<Rightarrow> 'a list \<Rightarrow> unit outcome \<times> ('a, 'z) q_aiter_scheme \<times> 'a list" where
  "q_aiter_push_resume self [] = (Returned (), self, [])"
| "q_aiter_push_resume self (x # xs) =
     (if queue_full (priv_q self) then (Suspended, self, x # xs)
      else q_aiter_push (self\<lparr>priv_q := queue_put (priv_q self) x\<rparr>) xs)"

text \<open>
  \<^verbatim>\<open>q_aiter.push_nowait(*items)\<close>: the exception raised, if any, and the stream as the
  call leaves it.
\<close>

fun q_aiter_push_nowait ::
  "('a, 'z) q_aiter_scheme \<Rightarrow> 'a list \<Rightarrow> error option \<times> ('a, 'z) q_aiter_scheme" where
  "q_aiter_push_nowait self [] = (None, self)"
| "q_aiter_push_nowait self (x # xs) =
     (if priv_stopping self then (Some ValueError, self)
      else if q_aiter_full self
      then (if priv_full_callback self
            then q_aiter_push_nowait (self\<lparr>full_callback_calls := full_callback_calls self @ [x]\<rparr>) xs
            else q_aiter_push_nowait self xs)
      else q_aiter_push_nowait (self\<lparr>priv_q := queue_put (priv_q self) x\<rparr>) xs)"

text \<open>
  \<^verbatim>\<open>q_aiter.__anext__\<close>. Once \<^verbatim>\<open>_stopping\<close> is done the queue is read with
  \<^verbatim>\<open>get_nowait\<close>; before, the call waits for the first of \<^verbatim>\<open>_stopping\<close> and
  \<^verbatim>\<open>self._q.get()\<close>, and is parked while the queue is empty.
\<close>

definition q_aiter_anext :: "('a, 'z) q_aiter_scheme \<Rightarrow> 'a outcome \<times> ('a, 'z) q_aiter_scheme" where
  "q_aiter_anext self =
     (if priv_stopping self then
        (if priv_stopped self then (Raised StopAsyncIteration, self)
         else (case q_items (priv_q self) of
                 x # xs \<Rightarrow> (Returned x, self\<lparr>priv_q := (priv_q self)\<lparr>q_items := xs\<rparr>\<rparr>)
               | [] \<Rightarrow> (Raised StopAsyncIteration, self\<lparr>priv_stopped := True\<rparr>)))
      else (case q_items (priv_q self) of
              x # xs \<Rightarrow> (Returned x, self\<lparr>priv_q := (priv_q self)\<lparr>q_items := xs\<rparr>\<rparr>)
            | [] \<Rightarrow> (Suspended, self)))"

section \<open>A producer and a consumer on one queue-backed stream\<close>

text \<open>
  Two tasks share a \<^verbatim>\<open>q_aiter\<close>. The producer runs \<^verbatim>\<open>await q.push(*items)\<close> and then
  \<^verbatim>\<open>q.stop()\<close>; the consumer runs \<^verbatim>\<open>async for v in q\<close>, keeping what it receives.
  A task runs from one \<^verbatim>\<open>await\<close> that parks it to the next; the scheduler picks the
  tasks in any order, and a parked task that is picked stays parked.
\<close>

datatype 'a producer =
    PStart "'a list"
  | PInPut "'a list"
  | PStop
  | PDone
  | PFailed error

record 'a pc_system =
  stream :: "'a q_aiter"
  producer :: "'a producer"
  received :: "'a list"
  consumer_ended :: bool
  consumer_failed :: "error option"

datatype task = Producer | Consumer

definition after_push :: "'a pc_system \<Rightarrow> unit outcome \<times> 'a q_aiter \<times> 'a list \<Rightarrow> 'a pc_system" where
  "after_push s r =
     (case r of
        (Returned u, q, rest) \<Rightarrow> s\<lparr>stream := q, producer := PStop\<rparr>
      | (Raised e, q, rest) \<Rightarrow> s\<lparr>stream := q, producer := PFailed e\<rparr>
      | (Suspended, q, rest) \<Rightarrow> s\<lparr>stream := q, producer := PInPut rest\<rparr>)"

fun task_step :: "task \<Rightarrow> 'a pc_system \<Rightarrow> 'a pc_system option" where
  "task_step Producer s =
     (case producer s of
        PStart xs \<Rightarrow> Some (after_push s (q_aiter_push (stream s) xs))
      | PInPut xs \<Rightarrow>
          (if queue_full (priv_q (stream s)) then None
           else Some (after_push s (q_aiter_push_resume (stream s) xs)))
      | PStop \<Rightarrow> Some (s\<lparr>stream := q_aiter_stop (stream s), producer := PDone\<rparr>)
      | PDone \<Rightarrow> None
      | PFailed e \<Rightarrow> None)"
| "task_step Consumer s =
     (if consumer_ended s \<or> consumer_failed s \<noteq> None then None
      else (case q_aiter_anext (stream s) of
              (Returned v, q) \<Rightarrow> Some (s\<lparr>stream := q, received := received s @ [v]\<rparr>)
            | (Raised e, q) \<Rightarrow>
                (if e = StopAsyncIteration then Some (s\<lparr>stream := q, consumer_ended := True\<rparr>)
                 else Some (s\<lparr>stream := q, consumer_failed := Some e\<rparr>))
            | (Suspended, q) \<Rightarrow> None))"

fun run :: "task list \<Rightarrow> 'a pc_system \<Rightarrow> 'a pc_system" where
  "run [] s = s"
| "run (t # ts) s = (case task_step t s of None \<Rightarrow> run ts s | Some s' \<Rightarrow> run ts s')"

definition producer_consumer :: "int \<Rightarrow> bool \<Rightarrow> 'a list \<Rightarrow> 'a pc_system" where
  "producer_consumer maxsize full_callback xs =
     \<lparr>stream = q_aiter_init None maxsize full_callback, producer = PStart xs,
      received = [], consumer_ended = False, consumer_failed = None\<rparr>"

text \<open>
  \<open>work\<close> bounds the steps the two tasks can still take; \<open>pc_inv xs\<close> relates a state
  to the items \<open>xs\<close> the producer was given.
\<close>

definition work :: "'a pc_system \<Rightarrow> nat" where
  "work s =
     (case producer s of
        PStart xs \<Rightarrow> 2 * length xs + 3
      | PInPut xs \<Rightarrow> 2 * length xs + 2
      | PStop \<Rightarrow> 1
      | PDone \<Rightarrow> 0
      | PFailed e \<Rightarrow> 0)
     + length (q_items (priv_q (stream s)))
     + (if consumer_ended s \<or> consumer_failed s \<noteq> None then 0 else 1)"

definition pc_inv :: "'a list \<Rightarrow> 'a pc_system \<Rightarrow> bool" where
  "pc_inv xs s =
     ((case producer s of
         PStart ys \<Rightarrow> received s @ q_items (priv_q (stream s)) @ ys = xs \<and> \<not> priv_stopping (stream s)
       | PInPut ys \<Rightarrow> received s @ q_items (priv_q (stream s)) @ ys = xs \<and> \<not> priv_stopping (stream s)
       | PStop \<Rightarrow> received s @ q_items (priv_q (stream s)) = xs \<and> \<not> priv_stopping (stream s)
       | PDone \<Rightarrow> received s @ q_items (priv_q (stream s)) = xs \<and> priv_stopping (stream s)
       | PFailed e \<Rightarrow> False)
      \<and> (priv_stopped (stream s) = consumer_ended s)
      \<and> (if consumer_ended s then priv_stopping (stream s) \<and> q_items (priv_q (stream s)) = [] else True)
      \<and> consumer_failed s = None)"

section \<open>The forker\<close>

text \<open>
  The stream a forker wraps yields the items of a finite list and then raises
  \<^verbatim>\<open>StopAsyncIteration\<close>, again at every later call. A call of its \<^verbatim>\<open>__anext__\<close> may
  be parked before it completes, so a call has a beginning and an end; the record counts
  the calls begun (\<open>up_calls\<close>), the calls begun and not yet completed
  (\<open>up_in_flight\<close>) and the calls that raised \<^verbatim>\<open>StopAsyncIteration\<close> (\<open>up_stops\<close>).
\<close>

record 'a upstream =
  up_items :: "'a list"
  up_calls :: nat
  up_in_flight :: nat
  up_stops :: nat

definition upstream_init :: "'a list \<Rightarrow> 'a upstream" where
  "upstream_init xs = \<lparr>up_items = xs, up_calls = 0, up_in_flight = 0, up_stops = 0\<rparr>"

definition upstream_call :: "'a upstream \<Rightarrow> 'a upstream" where
  "upstream_call u = u\<lparr>up_calls := Suc (up_calls u), up_in_flight := Suc (up_in_flight u)\<rparr>"

definition upstream_return :: "'a upstream \<Rightarrow> 'a option \<times> 'a upstream" where
  "upstream_return u =
     (case up_items u of
        [] \<Rightarrow> (None, u\<lparr>up_in_flight := up_in_flight u - 1, up_stops := Suc (up_stops u)\<rparr>)
      | x # xs \<Rightarrow> (Some x, u\<lparr>up_items := xs, up_in_flight := up_in_flight u - 1\<rparr>))"

text \<open>
  A fork is a \<^verbatim>\<open>q_aiter\<close>; an active one is an \<^verbatim>\<open>_active_forked_aiter\<close>, the subclass
  with the attribute \<^verbatim>\<open>_empty_callback_f\<close> (the forker's \<^verbatim>\<open>_fetch_next\<close>). The field
  says whether the object is of the subclass.
\<close>

record 'a forked_aiter = "'a q_aiter" +
  priv_empty_callback_f :: bool

definition forked_aiter_init :: "bool \<Rightarrow> 'a queue option \<Rightarrow> int \<Rightarrow> 'a forked_aiter" where
  "forked_aiter_init is_active q maxsize =
     q_aiter.extend (q_aiter_init q maxsize False)
       (forked_aiter.fields is_active)"

text \<open>
  An instance of \<^verbatim>\<open>aiter_forker\<close>: \<^verbatim>\<open>_open_aiter\<close>, \<^verbatim>\<open>_outputs\<close> (the addresses of the
  registered forks in the store of forks, in the order in which \<^verbatim>\<open>list(self._outputs)\<close>
  gives them), and the value of the semaphore \<^verbatim>\<open>_is_fetching\<close>.
\<close>

record 'a aiter_forker =
  priv_open_aiter :: "'a upstream"
  priv_outputs :: "nat list"
  priv_is_fetching :: nat

definition aiter_forker_init :: "'a list \<Rightarrow> 'a aiter_forker" where
  "aiter_forker_init xs =
     \<lparr>priv_open_aiter = upstream_init xs, priv_outputs = [], priv_is_fetching = 1\<rparr>"

definition new_fork ::
  "'a aiter_forker \<times> 'a forked_aiter list \<Rightarrow> 'a queue option \<Rightarrow> int \<Rightarrow> bool \<Rightarrow>
   'a aiter_forker \<times> 'a forked_aiter list" where
  "new_fork s q maxsize is_active =
     (case s of (self, store) \<Rightarrow>
        (self\<lparr>priv_outputs := priv_outputs self @ [length store]\<rparr>,
         store @ [forked_aiter_init is_active q maxsize]))"

definition remove_fork :: "'a aiter_forker \<Rightarrow> nat \<Rightarrow> 'a aiter_forker" where
  "remove_fork self aiter = self\<lparr>priv_outputs := removeAll aiter (priv_outputs self)\<rparr>"

text \<open>
  The two loops of \<^verbatim>\<open>_fetch_next\<close> over \<^verbatim>\<open>list(self._outputs)\<close>: stopping every
  output, and \<^verbatim>\<open>push_nowait\<close> of the fetched value to every output, which ends at the
  first output that raises.
\<close>

fun stop_outputs :: "'a forked_aiter list \<Rightarrow> nat list \<Rightarrow> 'a forked_aiter list" where
  "stop_outputs store [] = store"
| "stop_outputs store (i # outs) = stop_outputs (store[i := q_aiter_stop (store ! i)]) outs"

fun push_outputs ::
  "'a forked_aiter list \<Rightarrow> nat list \<Rightarrow> 'a \<Rightarrow> error option \<times> 'a forked_aiter list" where
  "push_outputs store [] v = (None, store)"
| "push_outputs store (i # outs) v =
     (case q_aiter_push_nowait (store ! i) [v] of
        (Some e, f) \<Rightarrow> (Some e, store[i := f])
      | (None, f) \<Rightarrow> push_outputs (store[i := f]) outs v)"

text \<open>
  \<^verbatim>\<open>_fetch_next\<close> in the pieces between its \<^verbatim>\<open>await\<close>s. \<open>fetch_next_enter\<close>: a caller
  that finds the semaphore locked goes to wait for it (\<open>False\<close>); otherwise it takes the
  semaphore, which does not park it, and calls \<^verbatim>\<open>__anext__\<close> of the upstream (\<open>True\<close>).
  \<open>fetch_next_complete\<close>: the upstream call ends; the outputs are stopped or the value is
  pushed to them; the semaphore is released, also when a push raises.
  \<open>fetch_next_waited\<close>: a waiting caller gets the semaphore, releases it and returns.
\<close>

definition fetch_next_enter :: "'a aiter_forker \<Rightarrow> bool \<times> 'a aiter_forker" where
  "fetch_next_enter self =
     (if priv_is_fetching self = 0 then (False, self)
      else (True, self\<lparr>priv_is_fetching := priv_is_fetching self - 1,
                        priv_open_aiter := upstream_call (priv_open_aiter self)\<rparr>))"

definition fetch_next_complete ::
  "'a aiter_forker \<times> 'a forked_aiter list \<Rightarrow> error option \<times> 'a aiter_forker \<times> 'a forked_aiter list" where
  "fetch_next_complete s =
     (case s of (self, store) \<Rightarrow>
        (case upstream_return (priv_open_aiter self) of
           (None, u) \<Rightarrow>
             (None,
              self\<lparr>priv_open_aiter := u, priv_is_fetching := Suc (priv_is_fetching self)\<rparr>,
              stop_outputs store (priv_outputs self))
         | (Some v, u) \<Rightarrow>
             (case push_outputs store (priv_outputs self) v of
                (r, store') \<Rightarrow>
                  (r,
                   self\<lparr>priv_open_aiter := u, priv_is_fetching := Suc (priv_is_fetching self)\<rparr>,
                   store'))))"

definition fetch_next_waited :: "'a aiter_forker \<Rightarrow> 'a aiter_forker option" where
  "fetch_next_waited self = (if priv_is_fetching self = 0 then None else Some self)"

text \<open>
  The consumers: consumer \<open>i\<close> runs \<^verbatim>\<open>async for v in fork\<close> on the fork at address \<open>i\<close>
  and keeps what it receives. It is at the head of the loop of \<^verbatim>\<open>__anext__\<close>
  (\<open>AtLoop\<close>), inside \<^verbatim>\<open>_fetch_next\<close> with the upstream call in flight (\<open>InFetch\<close>),
  inside \<^verbatim>\<open>_fetch_next\<close> waiting for the semaphore (\<open>InWait\<close>), or done.
\<close>

datatype fork_pc = AtLoop | InFetch | InWait | Ended | Failed error

record 'a forker_system =
  forker :: "'a aiter_forker"
  forks :: "'a forked_aiter list"
  pcs :: "fork_pc list"
  seen :: "'a list list"

definition needs_fetch :: "'a forked_aiter \<Rightarrow> bool" where
  "needs_fetch f = (priv_empty_callback_f f \<and> queue_empty (priv_q f) \<and> \<not> priv_stopping f)"

definition fork_step :: "nat \<Rightarrow> 'a forker_system \<Rightarrow> 'a forker_system option" where
  "fork_step i s =
     (if length (pcs s) \<le> i then None
      else case pcs s ! i of
        AtLoop \<Rightarrow>
          (if needs_fetch (forks s ! i) then
             (case fetch_next_enter (forker s) of
                (True, fk) \<Rightarrow> Some (s\<lparr>forker := fk, pcs := (pcs s)[i := InFetch]\<rparr>)
              | (False, fk) \<Rightarrow> Some (s\<lparr>forker := fk, pcs := (pcs s)[i := InWait]\<rparr>))
           else
             (case q_aiter_anext (forks s ! i) of
                (Returned v, f) \<Rightarrow>
                  Some (s\<lparr>forks := (forks s)[i := f], seen := (seen s)[i := seen s ! i @ [v]]\<rparr>)
              | (Raised e, f) \<Rightarrow>
                  Some (s\<lparr>forks := (forks s)[i := f],
                          pcs := (pcs s)[i := (if e = StopAsyncIteration then Ended else Failed e)]\<rparr>)
              | (Suspended, f) \<Rightarrow> None))
      | InFetch \<Rightarrow>
          (case fetch_next_complete (forker s, forks s) of
             (None, fk, store) \<Rightarrow> Some (s\<lparr>forker := fk, forks := store, pcs := (pcs s)[i := AtLoop]\<rparr>)
           | (Some e, fk, store) \<Rightarrow> Some (s\<lparr>forker := fk, forks := store, pcs := (pcs s)[i := Failed e]\<rparr>))
      | InWait \<Rightarrow>
          (case fetch_next_waited (forker s) of
             None \<Rightarrow> None
           | Some fk \<Rightarrow> Some (s\<lparr>forker := fk, pcs := (pcs s)[i := AtLoop]\<rparr>))
      | Ended \<Rightarrow> None
      | Failed e \<Rightarrow> None)"

fun run_forks :: "nat list \<Rightarrow> 'a forker_system \<Rightarrow> 'a forker_system" where
  "run_forks [] s = s"
| "run_forks (i # sched) s =
     (case fork_step i s of None \<Rightarrow> run_forks sched s | Some s' \<Rightarrow> run_forks sched s')"

text \<open>
  The system at the start: a forker on a stream of the items \<open>xs\<close>, and one fork with its
  consumer for each triple \<^verbatim>\<open>(q, maxsize, is_active)\<close>, made by \<^verbatim>\<open>new_fork\<close> in order.
\<close>

fun new_forks ::
  "'a aiter_forker \<times> 'a forked_aiter list \<Rightarrow> ('a queue option \<times> int \<times> bool) list \<Rightarrow>
   'a aiter_forker \<times> 'a forked_aiter list" where
  "new_forks s [] = s"
| "new_forks s ((q, maxsize, is_active) # specs) = new_forks (new_fork s q maxsize is_active) specs"

definition forker_start :: "'a list \<Rightarrow> ('a queue option \<times> int \<times> bool) list \<Rightarrow> 'a forker_system" where
  "forker_start xs specs =
     (case new_forks (aiter_forker_init xs, []) specs of
        (fk, store) \<Rightarrow>
          \<lparr>forker = fk, forks = store, pcs = replicate (length specs) AtLoop,
           seen = replicate (length specs) []\<rparr>)"

text \<open>
  The invariant of the runs of the system from \<open>forker_start xs specs\<close>. \<open>U\<close> marks
  forks whose buffer is unbounded and was empty at the start.
\<close>

definition in_fetch :: "fork_pc list \<Rightarrow> nat" where
  "in_fetch ps = length (filter (\<lambda>p. p = InFetch) ps)"

definition fk_inv :: "'a list \<Rightarrow> (nat \<Rightarrow> bool) \<Rightarrow> 'a forker_system \<Rightarrow> bool" where
  "fk_inv xs U s =
     (let u = priv_open_aiter (forker s); n = length (forks s) in
      length (pcs s) = n \<and> length (seen s) = n \<and> priv_outputs (forker s) = [0..<n]
      \<and> up_in_flight u + priv_is_fetching (forker s) = 1
      \<and> up_in_flight u = in_fetch (pcs s)
      \<and> up_calls u + length (up_items u) = length xs + up_stops u + up_in_flight u
      \<and> up_stops u \<le> 1
      \<and> (0 < up_stops u \<longrightarrow> up_in_flight u = 0 \<and> up_items u = [])
      \<and> (\<forall>i<n. priv_stopping (forks s ! i) = (0 < up_stops u))
      \<and> (\<forall>i<n. \<forall>e. pcs s ! i \<noteq> Failed e)
      \<and> (\<forall>i<n. U i \<longrightarrow>
             q_maxsize (priv_q (forks s ! i)) \<le> 0
             \<and> seen s ! i @ q_items (priv_q (forks s ! i)) @ up_items u = xs))"

text \<open>
  Systems for worked examples, each a forker on the stream 10, 20 with a passive fork that
  can hold one item beside an active fork made with the defaults: in \<open>bounded_passive\<close>
  the passive fork is made with \<^verbatim>\<open>maxsize=1\<close>; in \<open>given_queue\<close> it is made with the
  default \<^verbatim>\<open>maxsize\<close> of 0 and a queue of capacity 1 passed as \<^verbatim>\<open>q\<close>.
\<close>

definition bounded_passive :: "nat forker_system" where
  "bounded_passive = forker_start [10, 20] [(None, 1, False), (None, 0, True)]"

definition given_queue :: "nat forker_system" where
  "given_queue = forker_start [10, 20] [(Some (Queue 1), 0, False), (None, 0, True)]"

section \<open>Parallel mapping over a shared stream\<close>

text \<open>
  An instance of \<^verbatim>\<open>sharable_aiter\<close> holds the wrapped stream in \<^verbatim>\<open>_aiter\<close>. Its
  \<^verbatim>\<open>__anext__\<close> is \<^verbatim>\<open>return await self._aiter.__anext__()\<close>: the call of the wrapped
  stream begins at once, whatever other calls are under way, and the result is handed on
  when that call ends.
\<close>

record 'a sharable_aiter =
  priv_aiter :: "'a upstream"

definition sharable_aiter_init :: "'a upstream \<Rightarrow> 'a sharable_aiter" where
  "sharable_aiter_init aiter = \<lparr>priv_aiter = aiter\<rparr>"

definition sharable_aiter_anext_call :: "'a sharable_aiter \<Rightarrow> 'a sharable_aiter" where
  "sharable_aiter_anext_call self = self\<lparr>priv_aiter := upstream_call (priv_aiter self)\<rparr>"

definition sharable_aiter_anext_return :: "'a sharable_aiter \<Rightarrow> 'a option \<times> 'a sharable_aiter" where
  "sharable_aiter_anext_return self =
     (case upstream_return (priv_aiter self) of (r, u) \<Rightarrow> (r, self\<lparr>priv_aiter := u\<rparr>))"

text \<open>
  \<^verbatim>\<open>parallel_map_aiter(map_f, worker_count, aiter)\<close> makes one \<^verbatim>\<open>sharable_aiter\<close> and
  \<^verbatim>\<open>worker_count\<close> generators \<^verbatim>\<open>map_aiter(map_f, shared_aiter)\<close>, and joins them
  (the arguments \<^verbatim>\<open>q\<close> and \<^verbatim>\<open>maxsize\<close> are not used). The main job of
  \<^verbatim>\<open>join_aiters\<close> takes the workers one by one from the list and starts a job on each;
  a worker is idle, or inside \<^verbatim>\<open>__anext__\<close> of the shared stream, or ended. The system
  keeps the items each worker took, the joined output and the log of \<^verbatim>\<open>map_aiter\<close>.
\<close>

datatype worker_pc = WIdle | WCalling | WEnded

record ('a, 'b) parallel_map =
  shared_aiter :: "'a sharable_aiter"
  not_started :: nat
  worker_pcs :: "worker_pc list"
  taken :: "'a list list"
  joined :: "'b list"
  logged :: "(error \<times> 'a) list"

definition parallel_map_aiter :: "nat \<Rightarrow> 'a upstream \<Rightarrow> ('a, 'b) parallel_map" where
  "parallel_map_aiter worker_count aiter =
     \<lparr>shared_aiter = sharable_aiter_init aiter, not_started = worker_count,
      worker_pcs = [], taken = [], joined = [], logged = []\<rparr>"

datatype pm_task = Main | Worker nat

fun pm_step ::
  "('a \<Rightarrow> error + 'b) \<Rightarrow> pm_task \<Rightarrow> ('a, 'b) parallel_map \<Rightarrow> ('a, 'b) parallel_map option" where
  "pm_step map_f Main s =
     (if not_started s = 0 then None
      else Some (s\<lparr>not_started := not_started s - 1, worker_pcs := worker_pcs s @ [WIdle],
                   taken := taken s @ [[]]\<rparr>))"
| "pm_step map_f (Worker i) s =
     (if length (worker_pcs s) \<le> i then None
      else case worker_pcs s ! i of
        WIdle \<Rightarrow>
          Some (s\<lparr>shared_aiter := sharable_aiter_anext_call (shared_aiter s),
                  worker_pcs := (worker_pcs s)[i := WCalling]\<rparr>)
      | WCalling \<Rightarrow>
          (case sharable_aiter_anext_return (shared_aiter s) of
             (None, sh) \<Rightarrow> Some (s\<lparr>shared_aiter := sh, worker_pcs := (worker_pcs s)[i := WEnded]\<rparr>)
           | (Some x, sh) \<Rightarrow>
               (case map_f x of
                  Inr y \<Rightarrow>
                    Some (s\<lparr>shared_aiter := sh, worker_pcs := (worker_pcs s)[i := WIdle],
                            taken := (taken s)[i := taken s ! i @ [x]],
                            joined := joined s @ [y]\<rparr>)
                | Inl e \<Rightarrow>
                    Some (s\<lparr>shared_aiter := sh, worker_pcs := (worker_pcs s)[i := WIdle],
                            taken := (taken s)[i := taken s ! i @ [x]],
                            logged := logged s @ [(e, x)]\<rparr>)))
      | WEnded \<Rightarrow> None)"

fun run_pm ::
  "('a \<Rightarrow> error + 'b) \<Rightarrow> pm_task list \<Rightarrow> ('a, 'b) parallel_map \<Rightarrow> ('a, 'b) parallel_map" where
  "run_pm map_f [] s = s"
| "run_pm map_f (t # sched) s =
     (case pm_step map_f t s of None \<Rightarrow> run_pm map_f sched s | Some s' \<Rightarrow> run_pm map_f sched s')"

section \<open>Properties\<close>

subsection \<open>\<^verbatim>\<open>map_aiter\<close>\<close>

lemma map_aiter_loop_eq:
  "map_aiter_loop map_f xs =
     (List.map_filter (\<lambda>x. case map_f x of Inr y \<Rightarrow> Some y | Inl e \<Rightarrow> None) xs,
      List.map_filter (\<lambda>x. case map_f x of Inr y \<Rightarrow> None | Inl e \<Rightarrow> Some (e, x)) xs)"
  by (induction xs) (auto simp: List.map_filter_simps split: sum.splits)

text \<open>
  Claim C6. Whatever the stream and the function, \<^verbatim>\<open>map_aiter\<close> yields exactly the
  results of the items on which \<open>map_f\<close> returns, in order; each item on which \<open>map_f\<close>
  raises is written to the log with its exception and dropped, and the stream goes on with
  the next item: no exception reaches the consumer. On the inputs \<^verbatim>\<open>[1, "x", 2]\<close>, with
  a function that doubles numbers and raises on anything else, the output is \<^verbatim>\<open>[2, 4]\<close>.
\<close>

theorem map_aiter_isolates_errors:
  "map_aiter c map_f xs =
     (List.map_filter (\<lambda>x. case map_f x of Inr y \<Rightarrow> Some y | Inl e \<Rightarrow> None) xs,
      List.map_filter (\<lambda>x. case map_f x of Inr y \<Rightarrow> None | Inl e \<Rightarrow> Some (e, x)) xs)
   \<and> map_aiter c double_or_raise [PInt 1, PStr ''x'', PInt 2] =
     ([PInt 2, PInt 4], [(UserException ''not a number'', PStr ''x'')])"
  by (simp add: map_aiter_def map_aiter_loop_eq double_or_raise_def List.map_filter_simps)

subsection \<open>\<^verbatim>\<open>azip\<close>\<close>

lemma next_list_all:
  "\<forall>s\<in>set ss. s \<noteq> [] \<Longrightarrow> next_list ss = (Some (map hd ss), map tl ss)"
  by (induction ss rule: next_list.induct) auto

lemma next_list_end:
  "\<exists>s\<in>set ss. s = [] \<Longrightarrow> next_list ss = (None, left_after 0 ss)"
  by (induction ss rule: next_list.induct) (auto simp: next_list_all split: prod.splits option.splits)

lemma rounds_Suc:
  assumes a: "\<forall>s\<in>set ss. Suc m \<le> length s"
  shows "rounds (Suc m) ss = map hd ss # rounds m (map tl ss)"
proof -
  have h: "map (\<lambda>s. s ! 0) ss = map hd ss"
  proof (rule map_cong [OF refl])
    fix s assume "s \<in> set ss"
    with a have "s \<noteq> []" by auto
    then show "s ! 0 = hd s" by (simp add: hd_conv_nth)
  qed
  have t: "map (\<lambda>k. map (\<lambda>s. s ! Suc k) ss) [0..<m] = map (\<lambda>k. map (\<lambda>s. s ! k) (map tl ss)) [0..<m]"
  proof (rule map_cong [OF refl])
    fix k assume "k \<in> set [0..<m]"
    then have k: "k < m" by simp
    have "map (\<lambda>s. s ! Suc k) ss = map (\<lambda>s. tl s ! k) ss"
    proof (rule map_cong [OF refl])
      fix s assume "s \<in> set ss"
      with a k have "k < length (tl s)" by auto
      then show "s ! Suc k = tl s ! k" by (simp add: nth_tl)
    qed
    then show "map (\<lambda>s. s ! Suc k) ss = map (\<lambda>s. s ! k) (map tl ss)"
      by (simp add: comp_def)
  qed
  have "[0..<Suc m] = 0 # map Suc [0..<m]"
    by (simp add: upt_conv_Cons map_Suc_upt del: upt_Suc)
  then have "rounds (Suc m) ss = map (\<lambda>s. s ! 0) ss # map (\<lambda>k. map (\<lambda>s. s ! Suc k) ss) [0..<m]"
    by (simp add: rounds_def comp_def del: upt_Suc)
  then show ?thesis by (simp add: h t rounds_def)
qed

lemma left_after_Suc:
  "\<forall>s\<in>set ss. s \<noteq> [] \<Longrightarrow> left_after (Suc m) ss = left_after m (map tl ss)"
  by (induction ss) (auto simp: drop_Suc drop_tl)

lemma azip_ends:
  "\<forall>s\<in>set ss. m \<le> length s \<Longrightarrow> \<exists>s\<in>set ss. length s = m \<Longrightarrow> m < n \<Longrightarrow>
   azip n ss = (rounds m ss, True, left_after m ss)"
proof (induction m arbitrary: ss n)
  case 0
  then obtain k where n: "n = Suc k" by (cases n) auto
  from 0 have "\<exists>s\<in>set ss. s = []" by auto
  then show ?case by (simp add: n next_list_end rounds_def)
next
  case (Suc m)
  then obtain k where n: "n = Suc k" and k: "m < k" by (cases n) auto
  from Suc.prems have ne: "\<forall>s\<in>set ss. s \<noteq> []" by auto
  have a: "\<forall>s\<in>set (map tl ss). m \<le> length s" using Suc.prems by auto
  from Suc.prems obtain s0 where "s0 \<in> set ss" "length s0 = Suc m" by blast
  then have "tl s0 \<in> set (map tl ss)" "length (tl s0) = m" by auto
  then have b: "\<exists>s\<in>set (map tl ss). length s = m" by blast
  have "azip k (map tl ss) = (rounds m (map tl ss), True, left_after m (map tl ss))"
    by (rule Suc.IH [OF a b k])
  then show ?case using Suc.prems ne
    by (simp add: n next_list_all rounds_Suc left_after_Suc)
qed

lemma shortest_props:
  "ss \<noteq> [] \<Longrightarrow> (\<forall>s\<in>set ss. shortest ss \<le> length s) \<and> (\<exists>s\<in>set ss. length s = shortest ss)"
  unfolding shortest_def
proof -
  assume "ss \<noteq> []"
  then have ne: "set (map length ss) \<noteq> {}" by simp
  have fin: "finite (set (map length ss))" by simp
  have "Min (set (map length ss)) \<in> set (map length ss)" using Min_in [OF fin ne] .
  moreover have "\<forall>s\<in>set ss. Min (set (map length ss)) \<le> length s" using fin by auto
  ultimately show "(\<forall>s\<in>set ss. Min (set (map length ss)) \<le> length s) \<and> (\<exists>s\<in>set ss. length s = Min (set (map length ss)))"
    by auto
qed

text \<open>With no input at all the generator never ends: every pull yields the empty tuple.\<close>

lemma azip_no_inputs: "azip n [] = (replicate n [], False, [])"
  by (induction n) auto

text \<open>
  Claim C8. For finite inputs (at least one), a consumer that pulls \<^verbatim>\<open>azip\<close> more often
  than the shortest input is long gets one tuple per round, as many tuples as the shortest
  input has items, and then the end of the sequence. When the generator ends, an input
  placed behind the first exhausted one has been advanced once per tuple and no more, and
  pulling again advances nothing. Zipping a stream of length 3 with one of length 5 gives
  exactly 3 tuples.
\<close>

theorem azip_short_circuit:
  "ss \<noteq> [] \<Longrightarrow> shortest ss < n \<Longrightarrow>
   azip n ss = (rounds (shortest ss) ss, True, left_after (shortest ss) ss)"
  using shortest_props [of ss] azip_ends [of ss "shortest ss" n] by blast

theorem azip_short_circuit_witness:
  "[[1, 2, 3 :: nat], [10, 20, 30, 40, 50]] \<noteq> [] \<and> shortest [[1, 2, 3 :: nat], [10, 20, 30, 40, 50]] < 4
   \<and> azip 4 [[1, 2, 3 :: nat], [10, 20, 30, 40, 50]] =
      ([[1, 10], [2, 20], [3, 30]], True, [[], [40, 50]])"
  using azip_short_circuit [of "[[1, 2, 3 :: nat], [10, 20, 30, 40, 50]]" 4]
  by (simp add: shortest_def rounds_def upt_conv_Cons)

subsection \<open>The push producer\<close>

lemma head_ok_init: "head_ok (push_aiter_init h0)"
  by (simp add: head_ok_def push_aiter_init_def Future_def)

lemma push_nowait_open:
  assumes "head_ok s" "\<not> fut_cancelled (fst s) (priv_head (snd s))"
  shows "push_aiter_push_nowait s x =
         Inr ((fst s @ [Pending])[priv_head (snd s) := Result x (length (fst s))],
              (snd s)\<lparr>priv_head := length (fst s)\<rparr>)"
  using assms
  by (cases s) (auto simp: head_ok_def fut_cancelled_def push_aiter_push_nowait_def Future_def
      fut_set_result_def nth_append)

lemma push_nowait_closed:
  "fut_cancelled (fst s) (priv_head (snd s)) \<Longrightarrow> push_aiter_push_nowait s x = Inl ValueError"
  by (cases s) (simp add: push_aiter_push_nowait_def)

lemma apply_call_head_ok: "head_ok s \<Longrightarrow> head_ok (apply_call s c)"
proof (cases c)
  case (Push x)
  assume h: "head_ok s"
  show ?thesis
  proof (cases "fut_cancelled (fst s) (priv_head (snd s))")
    case True
    then show ?thesis using h Push by (simp add: push_aiter_push_def push_nowait_closed)
  next
    case False
    then show ?thesis using h Push
      by (simp add: push_aiter_push_def push_nowait_open [OF h False] head_ok_def)
  qed
next
  case (PushNowait x)
  assume h: "head_ok s"
  show ?thesis
  proof (cases "fut_cancelled (fst s) (priv_head (snd s))")
    case True
    then show ?thesis using h PushNowait by (simp add: push_nowait_closed)
  next
    case False
    then show ?thesis using h PushNowait
      by (simp add: push_nowait_open [OF h False] head_ok_def)
  qed
next
  case Stop
  assume "head_ok s"
  then show ?thesis using Stop
    by (cases s) (auto simp: head_ok_def push_aiter_stop_def fut_done_def fut_cancel_def)
next
  case Anext
  assume "head_ok s"
  then show ?thesis using Anext
    by (cases s) (auto simp: head_ok_def linked_aiter_anext_def split: future.splits)
qed

lemma foldl_head_ok: "head_ok s \<Longrightarrow> head_ok (foldl apply_call s cs)"
  by (induction cs arbitrary: s) (auto simp: apply_call_head_ok)

lemma run_calls_head_ok: "head_ok (run_calls h0 cs)"
  by (simp add: run_calls_def foldl_head_ok head_ok_init)

lemma apply_call_stopped:
  "head_ok s \<Longrightarrow> is_stopped (apply_call s c) = (is_stopped s \<or> c = Stop)"
proof (cases c)
  case (Push x)
  assume h: "head_ok s"
  show ?thesis
  proof (cases "fut_cancelled (fst s) (priv_head (snd s))")
    case True
    then show ?thesis using h Push by (simp add: push_aiter_push_def push_nowait_closed is_stopped_def)
  next
    case False
    then show ?thesis using h Push
      by (simp add: push_aiter_push_def push_nowait_open [OF h False] head_ok_def is_stopped_def fut_cancelled_def)
  qed
next
  case (PushNowait x)
  assume h: "head_ok s"
  show ?thesis
  proof (cases "fut_cancelled (fst s) (priv_head (snd s))")
    case True
    then show ?thesis using h PushNowait by (simp add: push_nowait_closed is_stopped_def)
  next
    case False
    then show ?thesis using h PushNowait
      by (simp add: push_nowait_open [OF h False] head_ok_def is_stopped_def fut_cancelled_def)
  qed
next
  case Stop
  assume "head_ok s"
  then show ?thesis using Stop
    by (cases s) (auto simp: head_ok_def push_aiter_stop_def fut_done_def fut_cancel_def is_stopped_def fut_cancelled_def)
next
  case Anext
  assume "head_ok s"
  then show ?thesis using Anext
    by (cases s) (auto simp: head_ok_def linked_aiter_anext_def is_stopped_def fut_cancelled_def split: future.splits)
qed

lemma foldl_stopped:
  "head_ok s \<Longrightarrow> is_stopped (foldl apply_call s cs) = (is_stopped s \<or> Stop \<in> set cs)"
  by (induction cs arbitrary: s) (auto simp: apply_call_head_ok apply_call_stopped)

lemma run_calls_stopped: "is_stopped (run_calls h0 cs) = (Stop \<in> set cs)"
  by (simp add: run_calls_def foldl_stopped head_ok_init)
     (simp add: is_stopped_def push_aiter_init_def Future_def fut_cancelled_def)

text \<open>
  The chain itself is as the linked stream is meant to be: after the pushes of \<open>xs\<close> and
  \<^verbatim>\<open>stop\<close>, the producer's own cursor yields exactly \<open>xs\<close>, in order, and then the
  end of the sequence.
\<close>

lemma chain_length: "length (chain h0 xs st) = length h0 + Suc (length xs)"
  by (simp add: chain_def)

lemma chain_nth_item:
  "i < length xs \<Longrightarrow> chain h0 xs st ! (length h0 + i) = Result (xs ! i) (length h0 + Suc i)"
  by (simp add: chain_def nth_append)

lemma chain_nth_last: "chain h0 xs st ! (length h0 + length xs) = st"
  by (simp add: chain_def nth_append)

lemma chain_snoc:
  "(chain h0 xs Pending @ [Pending])[length h0 + length xs := Result x (Suc (length h0 + length xs))]
   = chain h0 (xs @ [x]) Pending"
  by (rule nth_equalityI)
     (auto simp: chain_def nth_append nth_list_update less_Suc_eq)

lemma chain_stop:
  "(chain h0 xs Pending)[length h0 + length xs := Cancelled] = chain h0 xs Cancelled"
  by (rule nth_equalityI) (auto simp: chain_def nth_append nth_list_update)

lemma run_pushes:
  "run_calls h0 (map Push xs) =
     (chain h0 xs Pending,
      \<lparr>priv_tail = length h0, priv_lock = 1, priv_next_callback_f = None,
       priv_next_task = None, priv_head = length h0 + length xs\<rparr>)"
proof (induction xs rule: rev_induct)
  case Nil
  then show ?case by (simp add: run_calls_def push_aiter_init_def Future_def chain_def)
next
  case (snoc x xs)
  have "run_calls h0 (map Push (xs @ [x])) = apply_call (run_calls h0 (map Push xs)) (Push x)"
    by (simp add: run_calls_def)
  then show ?case
    unfolding snoc.IH
    by (simp add: push_aiter_push_def push_aiter_push_nowait_def fut_cancelled_def Future_def
        fut_set_result_def chain_nth_last chain_length nth_append chain_snoc)
qed

lemma run_pushes_stop:
  "run_calls h0 (map Push xs @ [Stop]) =
     (chain h0 xs Cancelled,
      \<lparr>priv_tail = length h0, priv_lock = 1, priv_next_callback_f = None,
       priv_next_task = None, priv_head = length h0 + length xs\<rparr>)"
proof -
  have "run_calls h0 (map Push xs @ [Stop]) = push_aiter_stop (run_calls h0 (map Push xs))"
    by (simp add: run_calls_def)
  then show ?thesis
    unfolding run_pushes
    by (simp add: push_aiter_stop_def fut_done_def fut_cancel_def chain_nth_last chain_stop)
qed

lemma drain_chain:
  "i \<le> length xs \<Longrightarrow> length xs - i < n \<Longrightarrow> priv_next_callback_f p = None \<Longrightarrow>
   drain n (chain h0 xs Cancelled, p\<lparr>priv_tail := length h0 + i\<rparr>) =
     (drop i xs, Some (Raised StopAsyncIteration),
      (chain h0 xs Cancelled, p\<lparr>priv_tail := length h0 + length xs\<rparr>))"
proof (induction n arbitrary: i)
  case 0
  then show ?case by simp
next
  case (Suc n)
  show ?case
  proof (cases "i = length xs")
    case True
    then show ?thesis
      by (simp add: linked_aiter_anext_def chain_nth_last)
  next
    case False
    with Suc.prems have i: "i < length xs" by simp
    then have a: "Suc i \<le> length xs" "length xs - Suc i < n" using Suc.prems by auto
    have d: "drop i xs = xs ! i # drop (Suc i) xs" using i by (simp add: Cons_nth_drop_Suc)
    from Suc.IH [OF a Suc.prems(3)] show ?thesis
      using i Suc.prems(3) by (simp add: linked_aiter_anext_def chain_nth_item d)
  qed
qed

lemma own_cursor_yields_pushes:
  "drain (Suc (length xs)) (run_calls h0 (map Push xs @ [Stop])) =
     (xs, Some (Raised StopAsyncIteration),
      (chain h0 xs Cancelled,
       \<lparr>priv_tail = length h0 + length xs, priv_lock = 1, priv_next_callback_f = None,
        priv_next_task = None, priv_head = length h0 + length xs\<rparr>))"
  unfolding run_pushes_stop
  using drain_chain [of 0 xs "Suc (length xs)"
      "\<lparr>priv_tail = length h0, priv_lock = 1, priv_next_callback_f = None,
        priv_next_task = None, priv_head = length h0 + length xs\<rparr>" h0]
  by simp

text \<open>
  Claim C1 (what the code does). \<^verbatim>\<open>split\<close> reads the attribute \<^verbatim>\<open>tail\<close>, which no
  linked stream has (the constructor stores \<^verbatim>\<open>_tail\<close>): on a push producer in any
  state, and on any plain cursor, with either value of \<^verbatim>\<open>is_active\<close>, the call raises
  \<^verbatim>\<open>AttributeError\<close> and returns no cursor.
\<close>

theorem split_raises_attribute_error:
  "split push_aiter_attrs h (snd (run_calls h0 cs)) is_active = Inl AttributeError
   \<and> split linked_aiter_attrs h' (cursor :: linked_aiter) is_active' = Inl AttributeError"
  by (simp add: split_def getattr_def push_aiter_attrs_def linked_aiter_attrs_def split: option.splits)

text \<open>
  Claim C9. On a push producer on which \<^verbatim>\<open>stop\<close> was never called, whatever was pushed
  and however far its cursor was advanced, \<^verbatim>\<open>push_nowait\<close> succeeds and \<^verbatim>\<open>push\<close>
  returns at once, without being parked: the old head holds the item and points to a fresh
  pending head, and the chain is one future longer. There is no bound on the length of the
  chain.
\<close>

theorem push_aiter_never_blocks:
  "Stop \<notin> set cs \<Longrightarrow>
   (\<exists>s'. push_aiter_push_nowait (run_calls h0 cs) x = Inr s'
       \<and> push_aiter_push (run_calls h0 cs) x = (Returned (), s')
       \<and> length (fst s') = Suc (length (fst (run_calls h0 cs)))
       \<and> fst s' ! priv_head (snd (run_calls h0 cs)) = Result x (priv_head (snd s'))
       \<and> fst s' ! priv_head (snd s') = Pending)"
proof -
  assume "Stop \<notin> set cs"
  then have open_head: "\<not> fut_cancelled (fst (run_calls h0 cs)) (priv_head (snd (run_calls h0 cs)))"
    using run_calls_stopped [of h0 cs] by (simp add: is_stopped_def)
  have ok: "head_ok (run_calls h0 cs)" by (rule run_calls_head_ok)
  show ?thesis
    using ok by (simp add: push_aiter_push_def push_nowait_open [OF ok open_head] head_ok_def nth_append)
qed

theorem push_aiter_never_blocks_witness:
  "Stop \<notin> set [Push (1::nat), PushNowait 2, Anext]
   \<and> push_aiter_push (run_calls [] [Push (1::nat), PushNowait 2, Anext]) 3 =
       (Returned (),
        ([Result 1 1, Result 2 2, Result 3 3, Pending],
         \<lparr>priv_tail = 1, priv_lock = 1, priv_next_callback_f = None, priv_next_task = None,
          priv_head = 3\<rparr>))"
  using push_aiter_never_blocks [of "[Push (1::nat), PushNowait 2, Anext]" "[]" 3]
  by (simp add: run_calls_def push_aiter_init_def Future_def push_aiter_push_def
      push_aiter_push_nowait_def fut_cancelled_def fut_set_result_def linked_aiter_anext_def
      fut_done_def)

subsection \<open>The queue-backed stream\<close>

lemma q_aiter_stop_stopping: "priv_stopping (q_aiter_stop self)"
  by (simp add: q_aiter_stop_def)

lemma q_aiter_push_stopping:
  "priv_stopping self \<Longrightarrow> priv_stopping (fst (snd (q_aiter_push self xs)))"
  by (cases xs) auto

lemma q_aiter_push_keeps_stopping:
  "priv_stopping (fst (snd (q_aiter_push self xs))) = priv_stopping self"
  by (induction self xs rule: q_aiter_push.induct) auto

lemma q_aiter_push_nowait_keeps_stopping:
  "priv_stopping (snd (q_aiter_push_nowait self xs)) = priv_stopping self"
  by (induction self xs rule: q_aiter_push_nowait.induct) auto

lemma q_aiter_anext_keeps_stopping:
  "priv_stopping (snd (q_aiter_anext self)) = priv_stopping self"
  by (simp add: q_aiter_anext_def split: list.splits)

text \<open>
  Claim C7. Once \<^verbatim>\<open>stop\<close> has been called on a push producer, \<^verbatim>\<open>push_nowait\<close> and
  \<^verbatim>\<open>push\<close> raise \<^verbatim>\<open>ValueError\<close> and leave the producer as it is. \<^verbatim>\<open>stop\<close> on
  a queue-backed stream completes \<^verbatim>\<open>_stopping\<close>, which stays so, and from then on
  \<^verbatim>\<open>push\<close> and \<^verbatim>\<open>push_nowait\<close> of an item raise \<^verbatim>\<open>ValueError\<close> before anything
  is buffered and without being parked.
\<close>

theorem push_after_stop_raises:
  "(Stop \<in> set cs \<longrightarrow>
      push_aiter_push_nowait (run_calls h0 cs) x = Inl ValueError
      \<and> push_aiter_push (run_calls h0 cs) x = (Raised ValueError, run_calls h0 cs))
   \<and> priv_stopping (q_aiter_stop self)
   \<and> (priv_stopping self \<longrightarrow>
        q_aiter_push self (y # ys) = (Raised ValueError, self, y # ys)
        \<and> q_aiter_push_nowait self (y # ys) = (Some ValueError, self)
        \<and> priv_stopping (snd (q_aiter_anext self))
        \<and> priv_stopping (q_aiter_stop self))"
proof -
  have "Stop \<in> set cs \<Longrightarrow> fut_cancelled (fst (run_calls h0 cs)) (priv_head (snd (run_calls h0 cs)))"
    using run_calls_stopped [of h0 cs] by (simp add: is_stopped_def)
  then show ?thesis
    by (auto simp: push_aiter_push_def push_nowait_closed q_aiter_stop_def q_aiter_anext_keeps_stopping)
qed

theorem push_after_stop_raises_witness:
  "Stop \<in> set [Push (1::nat), Stop, Anext]
   \<and> push_aiter_push (run_calls [] [Push (1::nat), Stop, Anext]) 2 =
       (Raised ValueError, run_calls [] [Push (1::nat), Stop, Anext])
   \<and> push_aiter_push_nowait (run_calls [] [Push (1::nat), Stop, Anext]) 2 = Inl ValueError
   \<and> priv_stopping (q_aiter_stop (q_aiter_init None 1 False :: nat q_aiter))
   \<and> q_aiter_push (q_aiter_stop (q_aiter_init None 1 False)) [5::nat] =
       (Raised ValueError, q_aiter_stop (q_aiter_init None 1 False), [5])
   \<and> q_aiter_push_nowait (q_aiter_stop (q_aiter_init None 1 False)) [5::nat] =
       (Some ValueError, q_aiter_stop (q_aiter_init None 1 False))"
  using push_after_stop_raises [of "[Push (1::nat), Stop, Anext]" "[]" 2
      "q_aiter_stop (q_aiter_init None 1 False :: nat q_aiter)" 5 "[]"]
  by (simp add: q_aiter_stop_def)

subsection \<open>Producer and consumer on a queue-backed stream\<close>

lemma q_aiter_push_shape:
  "q_aiter_push self xs = (r, self', rest) \<Longrightarrow>
     q_items (priv_q self') @ rest = q_items (priv_q self) @ xs
     \<and> priv_stopping self' = priv_stopping self
     \<and> priv_stopped self' = priv_stopped self
     \<and> length rest \<le> length xs
     \<and> (r = Returned () \<longrightarrow> rest = [])
     \<and> (r = Suspended \<longrightarrow> \<not> priv_stopping self)
     \<and> (r \<noteq> Returned () \<and> r \<noteq> Suspended \<longrightarrow> priv_stopping self)"
proof (induction self xs arbitrary: r self' rest rule: q_aiter_push.induct)
  case (1 self)
  then show ?case by auto
next
  case (2 self x xs)
  show ?case
  proof (cases "priv_stopping self")
    case True
    with 2(2) show ?thesis by auto
  next
    case ns: False
    show ?thesis
    proof (cases "queue_full (priv_q self)")
      case True
      with ns 2(2) show ?thesis by (auto split: if_splits)
    next
      case False
      with ns 2(2) have "q_aiter_push (self\<lparr>priv_q := queue_put (priv_q self) x\<rparr>) xs = (r, self', rest)"
        by simp
      from 2(1) [OF ns False this] show ?thesis using ns
        by (simp add: queue_put_def)
    qed
  qed
qed

lemma q_aiter_push_resume_shape:
  "\<not> queue_full (priv_q self) \<Longrightarrow> q_aiter_push_resume self xs = (r, self', rest) \<Longrightarrow>
     q_items (priv_q self') @ rest = q_items (priv_q self) @ xs
     \<and> priv_stopping self' = priv_stopping self
     \<and> priv_stopped self' = priv_stopped self
     \<and> (xs \<noteq> [] \<longrightarrow> length rest < length xs)
     \<and> (r = Returned () \<longrightarrow> rest = [])
     \<and> (r = Suspended \<longrightarrow> \<not> priv_stopping self)
     \<and> (r \<noteq> Returned () \<and> r \<noteq> Suspended \<longrightarrow> priv_stopping self)"
proof (cases xs)
  case Nil
  assume "q_aiter_push_resume self xs = (r, self', rest)"
  with Nil show ?thesis by auto
next
  case (Cons x ys)
  assume nf: "\<not> queue_full (priv_q self)" and eq: "q_aiter_push_resume self xs = (r, self', rest)"
  then have "q_aiter_push (self\<lparr>priv_q := queue_put (priv_q self) x\<rparr>) ys = (r, self', rest)"
    using Cons by simp
  from q_aiter_push_shape [OF this] show ?thesis using Cons
    by (simp add: queue_put_def)
qed


lemma append_eq_length: "(a :: 'a list) @ b = c @ d \<Longrightarrow> length a + length b = length c + length d"
  by (drule arg_cong [where f = length]) simp

lemma pc_inv_init: "pc_inv xs (producer_consumer maxsize cb xs)"
  by (simp add: pc_inv_def producer_consumer_def q_aiter_init_def Queue_def)

lemma producer_step_inv:
  assumes inv: "pc_inv xs s" and st: "task_step Producer s = Some s'"
  shows "pc_inv xs s' \<and> work s' < work s"
proof (cases "producer s")
  case (PStart ys)
  obtain r q rest where p: "q_aiter_push (stream s) ys = (r, q, rest)"
    by (cases "q_aiter_push (stream s) ys") auto
  note sh = q_aiter_push_shape [OF p]
  from sh have ln: "length (q_items (priv_q q)) + length rest = length (q_items (priv_q (stream s))) + length ys"
    by (intro append_eq_length) simp
  from st PStart p have s': "s' = after_push s (r, q, rest)" by simp
  from inv PStart have ns: "\<not> priv_stopping (stream s)" by (simp add: pc_inv_def)
  show ?thesis
  proof (cases r)
    case (Returned u)
    then show ?thesis using sh ln inv PStart s' ns
      by (auto simp: after_push_def pc_inv_def work_def)
  next
    case (Raised e)
    then show ?thesis using sh ns by auto
  next
    case Suspended
    then show ?thesis using sh ln inv PStart s' ns
      by (auto simp: after_push_def pc_inv_def work_def)
  qed
next
  case (PInPut ys)
  with st have nf: "\<not> queue_full (priv_q (stream s))" by (auto split: if_splits)
  obtain r q rest where p: "q_aiter_push_resume (stream s) ys = (r, q, rest)"
    by (cases "q_aiter_push_resume (stream s) ys") auto
  note sh = q_aiter_push_resume_shape [OF nf p]
  from sh have ln: "length (q_items (priv_q q)) + length rest = length (q_items (priv_q (stream s))) + length ys"
    by (intro append_eq_length) simp
  from st PInPut p nf have s': "s' = after_push s (r, q, rest)" by simp
  from inv PInPut have ns: "\<not> priv_stopping (stream s)" by (simp add: pc_inv_def)
  show ?thesis
  proof (cases r)
    case (Returned u)
    then show ?thesis using sh ln inv PInPut s' ns p
      by (cases ys) (auto simp: after_push_def pc_inv_def work_def)
  next
    case (Raised e)
    then show ?thesis using sh ns by auto
  next
    case Suspended
    then show ?thesis using sh ln inv PInPut s' ns p
      by (cases ys) (auto simp: after_push_def pc_inv_def work_def)
  qed
next
  case PStop
  then show ?thesis using inv st
    by (auto simp: pc_inv_def work_def q_aiter_stop_def)
next
  case PDone
  then show ?thesis using st by simp
next
  case (PFailed e)
  then show ?thesis using st by simp
qed

lemma consumer_step_inv:
  assumes inv: "pc_inv xs s" and st: "task_step Consumer s = Some s'"
  shows "pc_inv xs s' \<and> work s' < work s"
  using inv st
  by (auto simp: pc_inv_def work_def q_aiter_anext_def
      split: if_splits list.splits producer.splits)

lemma task_step_inv:
  "pc_inv xs s \<Longrightarrow> task_step t s = Some s' \<Longrightarrow> pc_inv xs s' \<and> work s' < work s"
  by (cases t) (auto dest: producer_step_inv consumer_step_inv)

lemma run_inv: "pc_inv xs s \<Longrightarrow> pc_inv xs (run sched s)"
  by (induction sched arbitrary: s) (auto split: option.splits dest: task_step_inv)

lemma full_nonempty: "queue_full q \<Longrightarrow> q_items q \<noteq> []"
  by (auto simp: queue_full_def split: if_splits)

lemma stuck_final:
  assumes inv: "pc_inv xs s"
    and p: "task_step Producer s = None" and c: "task_step Consumer s = None"
  shows "received s = xs \<and> consumer_ended s \<and> producer s = PDone \<and> q_items (priv_q (stream s)) = []"
proof (cases "producer s")
  case (PStart ys)
  then show ?thesis using p by simp
next
  case (PInPut ys)
  with p have "queue_full (priv_q (stream s))" by (auto split: if_splits)
  then have "q_items (priv_q (stream s)) \<noteq> []" by (rule full_nonempty)
  moreover from inv PInPut have "\<not> priv_stopping (stream s)" "\<not> consumer_ended s" "consumer_failed s = None"
    by (auto simp: pc_inv_def split: if_splits)
  ultimately have "task_step Consumer s \<noteq> None"
    by (auto simp: q_aiter_anext_def split: list.splits)
  then show ?thesis using c by simp
next
  case PStop
  then show ?thesis using p by simp
next
  case PDone
  with inv have st: "priv_stopping (stream s)" "consumer_failed s = None"
    "priv_stopped (stream s) = consumer_ended s" "received s @ q_items (priv_q (stream s)) = xs"
    by (auto simp: pc_inv_def)
  have "consumer_ended s"
  proof (rule ccontr)
    assume "\<not> consumer_ended s"
    then have "task_step Consumer s \<noteq> None" using st
      by (auto simp: q_aiter_anext_def split: list.splits)
    then show False using c by simp
  qed
  then show ?thesis using inv PDone by (auto simp: pc_inv_def)
next
  case (PFailed e)
  then show ?thesis using inv by (simp add: pc_inv_def)
qed

lemma anext_after_stop:
  assumes inv: "pc_inv xs s" and st: "priv_stopping (stream s)"
  shows "fst (q_aiter_anext (stream s)) =
          (case q_items (priv_q (stream s)) of
             [] \<Rightarrow> Raised StopAsyncIteration | x # rest \<Rightarrow> Returned x)"
  using inv st
  by (auto simp: pc_inv_def q_aiter_anext_def split: list.splits if_splits)

text \<open>
  Claim C3. A producer pushes \<open>C + 1\<close> items with the blocking \<^verbatim>\<open>push\<close> into a
  \<^verbatim>\<open>q_aiter\<close> of capacity \<open>C\<close> and then calls \<^verbatim>\<open>stop\<close>; a consumer advances the
  stream again and again. In whatever order the two tasks are scheduled: every step
  lowers \<open>work\<close>, so only finitely many steps are taken; when neither task can move,
  the consumer has received exactly the items pushed, in the order pushed, followed by
  the end of the sequence, and the producer has finished; and once the stream is stopped
  an advance returns the oldest buffered item if there is one and raises
  \<^verbatim>\<open>StopAsyncIteration\<close> if the buffer is empty.
\<close>

theorem q_aiter_delivers_all:
  assumes len: "length xs = Suc C"
    and s: "s = run sched (producer_consumer (int C) full_callback xs)"
  shows "(\<forall>t s'. task_step t s = Some s' \<longrightarrow> work s' < work s)
       \<and> (task_step Producer s = None \<and> task_step Consumer s = None \<longrightarrow>
            received s = xs \<and> consumer_ended s \<and> producer s = PDone)
       \<and> (priv_stopping (stream s) \<longrightarrow>
            fst (q_aiter_anext (stream s)) =
              (case q_items (priv_q (stream s)) of
                 [] \<Rightarrow> Raised StopAsyncIteration | x # rest \<Rightarrow> Returned x))"
proof -
  have inv: "pc_inv xs s" unfolding s by (rule run_inv [OF pc_inv_init])
  show ?thesis
    using task_step_inv [OF inv] stuck_final [OF inv] anext_after_stop [OF inv] by blast
qed

theorem q_aiter_delivers_all_witness:
  "length [10, 20 :: nat] = Suc 1
   \<and> run [Producer, Consumer, Producer, Producer, Consumer, Consumer]
         (producer_consumer (int 1) False [10, 20 :: nat]) =
       \<lparr>stream = \<lparr>priv_q = \<lparr>q_items = [], q_maxsize = 1\<rparr>, priv_stopping = True,
                  priv_stopped = True, priv_full_callback = False, full_callback_calls = []\<rparr>,
        producer = PDone, received = [10, 20], consumer_ended = True, consumer_failed = None\<rparr>
   \<and> task_step Producer (run [Producer, Consumer, Producer, Producer, Consumer, Consumer]
         (producer_consumer (int 1) False [10, 20 :: nat])) = None
   \<and> task_step Consumer (run [Producer, Consumer, Producer, Producer, Consumer, Consumer]
         (producer_consumer (int 1) False [10, 20 :: nat])) = None
   \<and> run [Producer] (producer_consumer (int 1) False [10, 20 :: nat]) =
       \<lparr>stream = \<lparr>priv_q = \<lparr>q_items = [10], q_maxsize = 1\<rparr>, priv_stopping = False,
                  priv_stopped = False, priv_full_callback = False, full_callback_calls = []\<rparr>,
        producer = PInPut [20], received = [], consumer_ended = False, consumer_failed = None\<rparr>"
  using q_aiter_delivers_all [of "[10, 20 :: nat]" 1
      "run [Producer, Consumer, Producer, Producer, Consumer, Consumer]
         (producer_consumer (int 1) False [10, 20 :: nat])"
      "[Producer, Consumer, Producer, Producer, Consumer, Consumer]" False]
  by (simp add: producer_consumer_def q_aiter_init_def Queue_def after_push_def queue_full_def
      queue_put_def q_aiter_anext_def q_aiter_stop_def)

subsection \<open>The forker\<close>

lemma in_fetch_update:
  "i < length ps \<Longrightarrow>
   in_fetch (ps[i := p]) + (if ps ! i = InFetch then 1 else 0) =
   in_fetch ps + (if p = InFetch then 1 else 0)"
proof (induction ps arbitrary: i)
  case Nil
  then show ?case by simp
next
  case (Cons a ps)
  show ?case
  proof (cases i)
    case 0
    then show ?thesis by (simp add: in_fetch_def)
  next
    case (Suc j)
    with Cons.prems have "j < length ps" by simp
    from Cons.IH [OF this] show ?thesis using Suc
      by (auto simp: in_fetch_def split: if_splits)
  qed
qed

lemma in_fetch_pos: "i < length ps \<Longrightarrow> ps ! i = InFetch \<Longrightarrow> 0 < in_fetch ps"
  unfolding in_fetch_def using nth_mem [of i ps] by (auto simp: filter_empty_conv)

lemma q_aiter_stop_idem: "q_aiter_stop (q_aiter_stop f) = q_aiter_stop f"
  by (simp add: q_aiter_stop_def)

lemma stop_outputs_nth:
  "\<forall>i\<in>set outs. i < length store \<Longrightarrow>
   length (stop_outputs store outs) = length store
   \<and> (\<forall>j<length store. stop_outputs store outs ! j =
        (if j \<in> set outs then q_aiter_stop (store ! j) else store ! j))"
proof (induction outs arbitrary: store)
  case Nil
  then show ?case by simp
next
  case (Cons i outs)
  let ?st = "store[i := q_aiter_stop (store ! i)]"
  from Cons.prems have "\<forall>k\<in>set outs. k < length ?st" by simp
  from Cons.IH [OF this] Cons.prems show ?case
    by (auto simp: nth_list_update q_aiter_stop_idem)
qed

lemma push_nowait_one:
  "\<not> priv_stopping f \<Longrightarrow>
   q_aiter_push_nowait f [v] =
     (None,
      if q_aiter_full f
      then (if priv_full_callback f then f\<lparr>full_callback_calls := full_callback_calls f @ [v]\<rparr> else f)
      else f\<lparr>priv_q := queue_put (priv_q f) v\<rparr>)"
  by simp

lemma push_outputs_nth:
  "distinct outs \<Longrightarrow> \<forall>i\<in>set outs. i < length store \<and> \<not> priv_stopping (store ! i) \<Longrightarrow>
   fst (push_outputs store outs v) = None
   \<and> length (snd (push_outputs store outs v)) = length store
   \<and> (\<forall>j<length store. snd (push_outputs store outs v) ! j =
        (if j \<in> set outs then snd (q_aiter_push_nowait (store ! j) [v]) else store ! j))"
proof (induction outs arbitrary: store)
  case Nil
  then show ?case by simp
next
  case (Cons i outs)
  from Cons.prems have ns: "\<not> priv_stopping (store ! i)" and il: "i < length store"
    and ni: "i \<notin> set outs" and d: "distinct outs" by auto
  have "fst (q_aiter_push_nowait (store ! i) [v]) = None"
    using ns by simp
  then obtain f where p: "q_aiter_push_nowait (store ! i) [v] = (None, f)"
    by (cases "q_aiter_push_nowait (store ! i) [v]") (simp del: q_aiter_push_nowait.simps)
  let ?st = "store[i := f]"
  have "\<forall>k\<in>set outs. k < length ?st \<and> \<not> priv_stopping (?st ! k)"
    using Cons.prems ni by (auto simp: nth_list_update simp del: q_aiter_push_nowait.simps)
  from Cons.IH [OF d this]
  have ih: "fst (push_outputs ?st outs v) = None"
    "length (snd (push_outputs ?st outs v)) = length store"
    "\<forall>j<length store. snd (push_outputs ?st outs v) ! j =
        (if j \<in> set outs then snd (q_aiter_push_nowait (?st ! j) [v]) else ?st ! j)"
    by auto
  have e: "push_outputs store (i # outs) v = push_outputs ?st outs v"
    using p by (simp del: q_aiter_push_nowait.simps)
  show ?case unfolding e using ih il ni p
    by (auto simp: nth_list_update simp del: q_aiter_push_nowait.simps)
qed

lemma forked_aiter_init_simps:
  "priv_stopping (forked_aiter_init a q m) = False"
  "priv_stopped (forked_aiter_init a q m) = False"
  "priv_full_callback (forked_aiter_init a q m) = False"
  "priv_empty_callback_f (forked_aiter_init a q m) = a"
  "priv_q (forked_aiter_init a q m) = (case q of None \<Rightarrow> Queue m | Some q' \<Rightarrow> q')"
  by (simp_all add: forked_aiter_init_def q_aiter_init_def q_aiter.defs forked_aiter.defs)

lemma new_forks_eq:
  "new_forks (fk, store) specs =
     (fk\<lparr>priv_outputs := priv_outputs fk @ [length store..<length store + length specs]\<rparr>,
      store @ map (\<lambda>(q, m, a). forked_aiter_init a q m) specs)"
proof (induction specs arbitrary: fk store)
  case Nil
  then show ?case by simp
next
  case (Cons sp specs)
  obtain q m a where sp: "sp = (q, m, a)" by (cases sp) auto
  have u: "[length store..<length store + length (sp # specs)] =
           length store # [Suc (length store)..<Suc (length store) + length specs]"
    by (simp add: upt_conv_Cons del: upt_Suc)
  have "new_forks (fk, store) (sp # specs) =
        new_forks (fk\<lparr>priv_outputs := priv_outputs fk @ [length store]\<rparr>,
                   store @ [forked_aiter_init a q m]) specs"
    unfolding sp by (simp add: new_fork_def)
  also have "\<dots> =
        (fk\<lparr>priv_outputs := (priv_outputs fk @ [length store])
                   @ [Suc (length store)..<Suc (length store) + length specs]\<rparr>,
         (store @ [forked_aiter_init a q m]) @ map (\<lambda>(q, m, a). forked_aiter_init a q m) specs)"
    unfolding Cons.IH by simp
  finally show ?case
    using u sp by (simp del: upt_Suc)
qed

lemma forker_start_eq:
  "forker_start xs specs =
     \<lparr>forker = \<lparr>priv_open_aiter = upstream_init xs, priv_outputs = [0..<length specs],
                priv_is_fetching = 1\<rparr>,
      forks = map (\<lambda>(q, m, a). forked_aiter_init a q m) specs,
      pcs = replicate (length specs) AtLoop,
      seen = replicate (length specs) []\<rparr>"
  by (simp add: forker_start_def new_forks_eq aiter_forker_init_def)

lemma in_fetch_replicate: "in_fetch (replicate n AtLoop) = 0"
  by (simp add: in_fetch_def)

lemma fk_inv_start:
  assumes "\<forall>i<length specs. U i \<longrightarrow>
             q_maxsize (priv_q (forks (forker_start xs specs) ! i)) \<le> 0
             \<and> q_items (priv_q (forks (forker_start xs specs) ! i)) = []"
  shows "fk_inv xs U (forker_start xs specs)"
proof -
  have st: "\<forall>i<length specs. \<not> priv_stopping (forks (forker_start xs specs) ! i)"
    by (auto simp: forker_start_eq forked_aiter_init_simps split: prod.splits)
  show ?thesis
    using assms st unfolding fk_inv_def Let_def
    by (simp add: forker_start_eq upstream_init_def in_fetch_replicate)
qed

lemma fk_invD:
  assumes "fk_inv xs U s"
  shows "length (pcs s) = length (forks s)"
    and "length (seen s) = length (forks s)"
    and "priv_outputs (forker s) = [0..<length (forks s)]"
    and "up_in_flight (priv_open_aiter (forker s)) + priv_is_fetching (forker s) = 1"
    and "up_in_flight (priv_open_aiter (forker s)) = in_fetch (pcs s)"
    and "up_calls (priv_open_aiter (forker s)) + length (up_items (priv_open_aiter (forker s))) =
         length xs + up_stops (priv_open_aiter (forker s)) + up_in_flight (priv_open_aiter (forker s))"
    and "up_stops (priv_open_aiter (forker s)) \<le> 1"
    and "0 < up_stops (priv_open_aiter (forker s)) \<Longrightarrow>
         up_in_flight (priv_open_aiter (forker s)) = 0 \<and> up_items (priv_open_aiter (forker s)) = []"
    and "\<And>i. i < length (forks s) \<Longrightarrow>
         priv_stopping (forks s ! i) = (0 < up_stops (priv_open_aiter (forker s)))"
    and "\<And>i e. i < length (forks s) \<Longrightarrow> pcs s ! i \<noteq> Failed e"
    and "\<And>i. i < length (forks s) \<Longrightarrow> U i \<Longrightarrow>
         q_maxsize (priv_q (forks s ! i)) \<le> 0
         \<and> seen s ! i @ q_items (priv_q (forks s ! i)) @ up_items (priv_open_aiter (forker s)) = xs"
  using assms unfolding fk_inv_def Let_def by simp_all

lemma q_aiter_anext_shape:
  "q_aiter_anext f = (r, f') \<Longrightarrow>
     priv_stopping f' = priv_stopping f
     \<and> q_maxsize (priv_q f') = q_maxsize (priv_q f)
     \<and> (case r of
          Returned v \<Rightarrow> q_items (priv_q f) = v # q_items (priv_q f')
        | Raised e \<Rightarrow> e = StopAsyncIteration \<and> q_items (priv_q f') = q_items (priv_q f)
        | Suspended \<Rightarrow> f' = f)"
  by (auto simp: q_aiter_anext_def split: if_splits list.splits)

lemma step_wait:
  assumes inv: "fk_inv xs U s" and i: "i < length (pcs s)" and pc: "pcs s ! i = AtLoop"
    and p: "p = InWait"
  shows "fk_inv xs U (s\<lparr>pcs := (pcs s)[i := p]\<rparr>)"
proof -
  note d = fk_invD [OF inv]
  have "in_fetch ((pcs s)[i := p]) = in_fetch (pcs s)"
    using in_fetch_update [OF i, of p] pc p by simp
  then show ?thesis
    using d i p unfolding fk_inv_def Let_def
    by (simp add: nth_list_update)
qed

lemma step_waited:
  assumes inv: "fk_inv xs U s" and i: "i < length (pcs s)" and pc: "pcs s ! i = InWait"
  shows "fk_inv xs U (s\<lparr>pcs := (pcs s)[i := AtLoop]\<rparr>)"
proof -
  note d = fk_invD [OF inv]
  have "in_fetch ((pcs s)[i := AtLoop]) = in_fetch (pcs s)"
    using in_fetch_update [OF i, of AtLoop] pc by simp
  then show ?thesis
    using d i unfolding fk_inv_def Let_def
    by (simp add: nth_list_update)
qed

lemma step_enter:
  assumes inv: "fk_inv xs U s" and i: "i < length (pcs s)" and pc: "pcs s ! i = AtLoop"
    and nf: "needs_fetch (forks s ! i)" and sem: "priv_is_fetching (forker s) \<noteq> 0"
  shows "fk_inv xs U (s\<lparr>forker := (forker s)\<lparr>priv_is_fetching := priv_is_fetching (forker s) - 1,
                            priv_open_aiter := upstream_call (priv_open_aiter (forker s))\<rparr>,
                          pcs := (pcs s)[i := InFetch]\<rparr>)"
proof -
  note d = fk_invD [OF inv]
  have f: "in_fetch ((pcs s)[i := InFetch]) = Suc (in_fetch (pcs s))"
    using in_fetch_update [OF i, of InFetch] pc by simp
  from d(4) sem have z: "up_in_flight (priv_open_aiter (forker s)) = 0" "priv_is_fetching (forker s) = 1"
    by auto
  from nf have "\<not> priv_stopping (forks s ! i)" by (simp add: needs_fetch_def)
  with d(9) [of i] i d(1) have st: "up_stops (priv_open_aiter (forker s)) = 0" by simp
  show ?thesis
    using d i f z st unfolding fk_inv_def Let_def
    by (simp add: nth_list_update upstream_call_def)
qed

lemma step_returned:
  assumes inv: "fk_inv xs U s" and i: "i < length (pcs s)"
    and a: "q_aiter_anext (forks s ! i) = (Returned v, f)"
  shows "fk_inv xs U (s\<lparr>forks := (forks s)[i := f], seen := (seen s)[i := seen s ! i @ [v]]\<rparr>)"
proof -
  note d = fk_invD [OF inv]
  note sh = q_aiter_anext_shape [OF a]
  have k: "U i \<Longrightarrow>
      seen s ! i @ v # q_items (priv_q f) @ up_items (priv_open_aiter (forker s)) = xs"
    using d(11) [of i] i d(1) sh by simp
  show ?thesis
    using d i sh k unfolding fk_inv_def Let_def
    by (auto simp: nth_list_update)
qed

lemma step_raised:
  assumes inv: "fk_inv xs U s" and i: "i < length (pcs s)" and pc: "pcs s ! i = AtLoop"
    and a: "q_aiter_anext (forks s ! i) = (Raised e, f)"
  shows "fk_inv xs U (s\<lparr>forks := (forks s)[i := f],
                          pcs := (pcs s)[i := (if e = StopAsyncIteration then Ended else Failed e)]\<rparr>)"
proof -
  note d = fk_invD [OF inv]
  note sh = q_aiter_anext_shape [OF a]
  from sh have e: "e = StopAsyncIteration" by simp
  have "in_fetch ((pcs s)[i := Ended]) = in_fetch (pcs s)"
    using in_fetch_update [OF i, of Ended] pc by simp
  then show ?thesis
    using d i sh e unfolding fk_inv_def Let_def
    by (auto simp: nth_list_update)
qed

lemma in_fetch_facts:
  assumes inv: "fk_inv xs U s" and i: "i < length (pcs s)" and pc: "pcs s ! i = InFetch"
  shows "up_in_flight (priv_open_aiter (forker s)) = 1"
    and "priv_is_fetching (forker s) = 0"
    and "up_stops (priv_open_aiter (forker s)) = 0"
    and "\<And>j. j < length (forks s) \<Longrightarrow> \<not> priv_stopping (forks s ! j)"
    and "in_fetch ((pcs s)[i := AtLoop]) = 0"
proof -
  note d = fk_invD [OF inv]
  from in_fetch_pos [OF i pc] d(5) have "0 < up_in_flight (priv_open_aiter (forker s))" by simp
  with d(4) show a: "up_in_flight (priv_open_aiter (forker s)) = 1"
    and "priv_is_fetching (forker s) = 0" by auto
  with d(8) show st: "up_stops (priv_open_aiter (forker s)) = 0" by auto
  with d(9) show "\<And>j. j < length (forks s) \<Longrightarrow> \<not> priv_stopping (forks s ! j)" by simp
  from in_fetch_update [OF i, of AtLoop] pc a d(5)
  show "in_fetch ((pcs s)[i := AtLoop]) = 0" by simp
qed

lemma step_complete_stop:
  assumes inv: "fk_inv xs U s" and i: "i < length (pcs s)" and pc: "pcs s ! i = InFetch"
    and up: "up_items (priv_open_aiter (forker s)) = []"
  shows "fetch_next_complete (forker s, forks s) =
           (None,
            (forker s)\<lparr>priv_open_aiter := (priv_open_aiter (forker s))\<lparr>up_in_flight := 0, up_stops := 1\<rparr>,
                       priv_is_fetching := 1\<rparr>,
            map q_aiter_stop (forks s))"
    and "fk_inv xs U
          (s\<lparr>forker := (forker s)\<lparr>priv_open_aiter := (priv_open_aiter (forker s))\<lparr>up_in_flight := 0, up_stops := 1\<rparr>,
                                  priv_is_fetching := 1\<rparr>,
             forks := map q_aiter_stop (forks s),
             pcs := (pcs s)[i := AtLoop]\<rparr>)"
proof -
  note d = fk_invD [OF inv]
  note f = in_fetch_facts [OF inv i pc]
  have "\<forall>k\<in>set [0..<length (forks s)]. k < length (forks s)" by simp
  from stop_outputs_nth [OF this]
  have so: "stop_outputs (forks s) [0..<length (forks s)] = map q_aiter_stop (forks s)"
    by (intro nth_equalityI) auto
  show "fetch_next_complete (forker s, forks s) =
           (None,
            (forker s)\<lparr>priv_open_aiter := (priv_open_aiter (forker s))\<lparr>up_in_flight := 0, up_stops := 1\<rparr>,
                       priv_is_fetching := 1\<rparr>,
            map q_aiter_stop (forks s))"
    using up f(1,2,3) d(3) so by (simp add: fetch_next_complete_def upstream_return_def)
  show "fk_inv xs U
          (s\<lparr>forker := (forker s)\<lparr>priv_open_aiter := (priv_open_aiter (forker s))\<lparr>up_in_flight := 0, up_stops := 1\<rparr>,
                                  priv_is_fetching := 1\<rparr>,
             forks := map q_aiter_stop (forks s),
             pcs := (pcs s)[i := AtLoop]\<rparr>)"
    using d i f up unfolding fk_inv_def Let_def
    by (auto simp: nth_list_update q_aiter_stop_def)
qed

lemma step_complete_push:
  assumes inv: "fk_inv xs U s" and i: "i < length (pcs s)" and pc: "pcs s ! i = InFetch"
    and up: "up_items (priv_open_aiter (forker s)) = v # rest"
  shows "fetch_next_complete (forker s, forks s) =
           (None,
            (forker s)\<lparr>priv_open_aiter := (priv_open_aiter (forker s))\<lparr>up_items := rest, up_in_flight := 0\<rparr>,
                       priv_is_fetching := 1\<rparr>,
            map (\<lambda>f. snd (q_aiter_push_nowait f [v])) (forks s))"
    and "fk_inv xs U
          (s\<lparr>forker := (forker s)\<lparr>priv_open_aiter := (priv_open_aiter (forker s))\<lparr>up_items := rest, up_in_flight := 0\<rparr>,
                                  priv_is_fetching := 1\<rparr>,
             forks := map (\<lambda>f. snd (q_aiter_push_nowait f [v])) (forks s),
             pcs := (pcs s)[i := AtLoop]\<rparr>)"
proof -
  note d = fk_invD [OF inv]
  note f = in_fetch_facts [OF inv i pc]
  have "\<forall>k\<in>set [0..<length (forks s)]. k < length (forks s) \<and> \<not> priv_stopping (forks s ! k)"
    using f(4) by simp
  from push_outputs_nth [OF distinct_upt this, of v]
  have po: "push_outputs (forks s) [0..<length (forks s)] v =
            (None, map (\<lambda>f. snd (q_aiter_push_nowait f [v])) (forks s))"
    by (intro prod_eqI nth_equalityI) (auto simp del: q_aiter_push_nowait.simps)
  show "fetch_next_complete (forker s, forks s) =
           (None,
            (forker s)\<lparr>priv_open_aiter := (priv_open_aiter (forker s))\<lparr>up_items := rest, up_in_flight := 0\<rparr>,
                       priv_is_fetching := 1\<rparr>,
            map (\<lambda>f. snd (q_aiter_push_nowait f [v])) (forks s))"
    using up f(1,2,3) d(3) po
    by (simp add: fetch_next_complete_def upstream_return_def del: q_aiter_push_nowait.simps)
  have pn: "\<And>j. j < length (forks s) \<Longrightarrow>
      \<not> priv_stopping (snd (q_aiter_push_nowait (forks s ! j) [v]))
      \<and> q_maxsize (priv_q (snd (q_aiter_push_nowait (forks s ! j) [v]))) = q_maxsize (priv_q (forks s ! j))
      \<and> (q_maxsize (priv_q (forks s ! j)) \<le> 0 \<longrightarrow>
           q_items (priv_q (snd (q_aiter_push_nowait (forks s ! j) [v]))) = q_items (priv_q (forks s ! j)) @ [v])"
    using f(4) by (auto simp: q_aiter_full_def queue_full_def queue_put_def)
  show "fk_inv xs U
          (s\<lparr>forker := (forker s)\<lparr>priv_open_aiter := (priv_open_aiter (forker s))\<lparr>up_items := rest, up_in_flight := 0\<rparr>,
                                  priv_is_fetching := 1\<rparr>,
             forks := map (\<lambda>f. snd (q_aiter_push_nowait f [v])) (forks s),
             pcs := (pcs s)[i := AtLoop]\<rparr>)"
    using d i f up pn unfolding fk_inv_def Let_def
    by (auto simp: nth_list_update simp del: q_aiter_push_nowait.simps)
qed

lemma fork_step_inv:
  assumes inv: "fk_inv xs U s" and st: "fork_step i s = Some s'"
  shows "fk_inv xs U s'"
proof -
  from st have i: "i < length (pcs s)"
    by (auto simp: fork_step_def split: if_splits)
  show ?thesis
  proof (cases "pcs s ! i")
    case AtLoop
    show ?thesis
    proof (cases "needs_fetch (forks s ! i)")
      case True
      show ?thesis
      proof (cases "priv_is_fetching (forker s) = 0")
        case z: True
        with st i AtLoop True have "s' = s\<lparr>forker := forker s, pcs := (pcs s)[i := InWait]\<rparr>"
          by (simp add: fork_step_def fetch_next_enter_def)
        then have "s' = s\<lparr>pcs := (pcs s)[i := InWait]\<rparr>" by simp
        then show ?thesis using step_wait [OF inv i AtLoop refl] by simp
      next
        case nz: False
        with st i AtLoop True
        have "s' = s\<lparr>forker := (forker s)\<lparr>priv_is_fetching := priv_is_fetching (forker s) - 1,
                            priv_open_aiter := upstream_call (priv_open_aiter (forker s))\<rparr>,
                      pcs := (pcs s)[i := InFetch]\<rparr>"
          by (simp add: fork_step_def fetch_next_enter_def)
        then show ?thesis using step_enter [OF inv i AtLoop True nz] by simp
      qed
    next
      case False
      obtain r f where a: "q_aiter_anext (forks s ! i) = (r, f)"
        by (cases "q_aiter_anext (forks s ! i)") auto
      show ?thesis
      proof (cases r)
        case (Returned v)
        with st i AtLoop False a
        have "s' = s\<lparr>forks := (forks s)[i := f], seen := (seen s)[i := seen s ! i @ [v]]\<rparr>"
          by (simp add: fork_step_def)
        then show ?thesis using step_returned [OF inv i a [unfolded Returned]] by simp
      next
        case (Raised e)
        with st i AtLoop False a
        have "s' = s\<lparr>forks := (forks s)[i := f],
                      pcs := (pcs s)[i := (if e = StopAsyncIteration then Ended else Failed e)]\<rparr>"
          by (simp add: fork_step_def)
        then show ?thesis using step_raised [OF inv i AtLoop a [unfolded Raised]] by simp
      next
        case Suspended
        with st i AtLoop False a show ?thesis by (simp add: fork_step_def)
      qed
    qed
  next
    case InFetch
    show ?thesis
    proof (cases "up_items (priv_open_aiter (forker s))")
      case Nil
      note c = step_complete_stop [OF inv i InFetch Nil]
      from st i InFetch c(1) show ?thesis using c(2) by (simp add: fork_step_def)
    next
      case (Cons v rest)
      note c = step_complete_push [OF inv i InFetch Cons]
      from st i InFetch c(1) show ?thesis using c(2)
        by (simp add: fork_step_def del: q_aiter_push_nowait.simps)
    qed
  next
    case InWait
    with st i have "s' = s\<lparr>forker := forker s, pcs := (pcs s)[i := AtLoop]\<rparr>"
      by (auto simp: fork_step_def fetch_next_waited_def split: if_splits)
    then have "s' = s\<lparr>pcs := (pcs s)[i := AtLoop]\<rparr>" by simp
    then show ?thesis using step_waited [OF inv i InWait] by simp
  next
    case Ended
    with st i show ?thesis by (simp add: fork_step_def)
  next
    case (Failed e)
    with st i show ?thesis by (simp add: fork_step_def)
  qed
qed

lemma run_forks_inv: "fk_inv xs U s \<Longrightarrow> fk_inv xs U (run_forks sched s)"
  by (induction sched arbitrary: s) (auto split: option.splits dest: fork_step_inv)

lemma fork_step_length:
  assumes inv: "fk_inv xs U s" and st: "fork_step i s = Some s'"
  shows "length (forks s') = length (forks s)"
proof -
  from st have i: "i < length (pcs s)"
    by (auto simp: fork_step_def split: if_splits)
  show ?thesis
  proof (cases "pcs s ! i")
    case AtLoop
    with st i show ?thesis
      by (auto simp: fork_step_def fetch_next_enter_def
          split: if_splits prod.splits outcome.splits)
  next
    case InFetch
    show ?thesis
    proof (cases "up_items (priv_open_aiter (forker s))")
      case Nil
      note c = step_complete_stop [OF inv i InFetch Nil]
      from st i InFetch c(1) show ?thesis by (auto simp: fork_step_def)
    next
      case (Cons v rest)
      note c = step_complete_push [OF inv i InFetch Cons]
      from st i InFetch c(1) show ?thesis
        by (auto simp: fork_step_def simp del: q_aiter_push_nowait.simps)
    qed
  next
    case InWait
    with st i show ?thesis
      by (auto simp: fork_step_def fetch_next_waited_def split: if_splits)
  next
    case Ended
    with st i show ?thesis by (simp add: fork_step_def)
  next
    case (Failed e)
    with st i show ?thesis by (simp add: fork_step_def)
  qed
qed

lemma run_forks_length:
  "fk_inv xs U s \<Longrightarrow> length (forks (run_forks sched s)) = length (forks s)"
proof (induction sched arbitrary: s)
  case Nil
  then show ?case by simp
next
  case (Cons i sched)
  show ?case
  proof (cases "fork_step i s")
    case None
    then show ?thesis using Cons by simp
  next
    case (Some s')
    from fork_step_inv [OF Cons.prems Some] have "fk_inv xs U s'" .
    from Cons.IH [OF this] fork_step_length [OF Cons.prems Some] Some
    show ?thesis by simp
  qed
qed

lemma forker_start_length: "length (forks (forker_start xs specs)) = length specs"
  by (simp add: forker_start_eq)

lemma start_inv_plain: "fk_inv xs (\<lambda>i. False) (forker_start xs specs)"
  by (rule fk_inv_start) simp

lemmas ev = forker_start_eq forked_aiter_init_def q_aiter_init_def q_aiter.defs forked_aiter.defs
  Queue_def upstream_init_def fork_step_def needs_fetch_def queue_empty_def fetch_next_enter_def
  fetch_next_complete_def fetch_next_waited_def upstream_call_def upstream_return_def
  q_aiter_anext_def q_aiter_stop_def q_aiter_full_def queue_full_def queue_put_def

text \<open>
  Claim C4. A forker on a stream of the items \<open>xs\<close>, with any number of forks of either
  kind, each drained by its own consumer, the consumers scheduled in any order. In every
  state that is reached, at most one call of the upstream \<^verbatim>\<open>__anext__\<close> is in flight;
  the number of calls begun never exceeds the number of items plus one, the call that
  meets the end of the stream; and an active fork that comes to fetch while a call is in
  flight goes to wait for the semaphore and leaves the upstream alone.
\<close>

theorem single_flight_fetch:
  assumes s: "s = run_forks sched (forker_start xs specs)"
  shows "up_in_flight (priv_open_aiter (forker s)) \<le> 1
       \<and> up_calls (priv_open_aiter (forker s)) \<le> length xs + 1
       \<and> (\<forall>i. up_in_flight (priv_open_aiter (forker s)) = 1 \<and> i < length (pcs s)
               \<and> pcs s ! i = AtLoop \<and> needs_fetch (forks s ! i) \<longrightarrow>
             fork_step i s = Some (s\<lparr>pcs := (pcs s)[i := InWait]\<rparr>))"
proof -
  have inv: "fk_inv xs (\<lambda>i. False) s"
    unfolding s by (rule run_forks_inv [OF start_inv_plain])
  note d = fk_invD [OF inv]
  from d(4) have a: "up_in_flight (priv_open_aiter (forker s)) \<le> 1" by simp
  have b: "up_calls (priv_open_aiter (forker s)) \<le> length xs + 1"
  proof (cases "0 < up_stops (priv_open_aiter (forker s))")
    case True
    with d(8) d(6) d(7) show ?thesis by simp
  next
    case False
    with d(6) a show ?thesis by simp
  qed
  have c: "fork_step i s = Some (s\<lparr>pcs := (pcs s)[i := InWait]\<rparr>)"
    if "up_in_flight (priv_open_aiter (forker s)) = 1" "i < length (pcs s)"
      "pcs s ! i = AtLoop" "needs_fetch (forks s ! i)" for i
  proof -
    from that(1) d(4) have "priv_is_fetching (forker s) = 0" by simp
    with that show ?thesis by (simp add: fork_step_def fetch_next_enter_def)
  qed
  from a b c show ?thesis by blast
qed

theorem single_flight_fetch_witness:
  "up_in_flight (priv_open_aiter (forker
       (run_forks [0] (forker_start [10::nat, 20] [(None, 0, True), (None, 0, True)])))) = 1
   \<and> 1 < length (pcs (run_forks [0] (forker_start [10::nat, 20] [(None, 0, True), (None, 0, True)])))
   \<and> pcs (run_forks [0] (forker_start [10::nat, 20] [(None, 0, True), (None, 0, True)])) ! 1 = AtLoop
   \<and> needs_fetch (forks (run_forks [0] (forker_start [10::nat, 20] [(None, 0, True), (None, 0, True)])) ! 1)
   \<and> pcs (run_forks [0, 1] (forker_start [10::nat, 20] [(None, 0, True), (None, 0, True)]))
       = [InFetch, InWait]
   \<and> priv_open_aiter (forker (run_forks [0, 1] (forker_start [10::nat, 20] [(None, 0, True), (None, 0, True)])))
       = \<lparr>up_items = [10, 20], up_calls = 1, up_in_flight = 1, up_stops = 0\<rparr>"
  using single_flight_fetch [of "run_forks [0] (forker_start [10::nat, 20] [(None, 0, True), (None, 0, True)])"
      "[0]" "[10, 20]" "[(None, 0, True), (None, 0, True)]"]
  by (simp add: ev)

text \<open>
  Claim C5 (what the code does). A passive fork made with \<^verbatim>\<open>maxsize=1\<close> that is not
  drained while an active fork with the default capacity drives the forker: the fetch of
  the second value calls \<^verbatim>\<open>push_nowait\<close> on the passive fork while its buffer is full,
  and the value is not put into that buffer. The passive fork ends having received 10
  alone, the active fork 10 and 20: the forks do not observe the identical sequence.
\<close>

theorem full_fork_misses_value:
  "seen (run_forks [1, 1, 1, 1, 1, 1, 1, 1, 1, 0, 0]
           bounded_passive) = [[10], [10, 20]]
   \<and> pcs (run_forks [1, 1, 1, 1, 1, 1, 1, 1, 1, 0, 0]
           bounded_passive) = [Ended, Ended]
   \<and> map (\<lambda>f. q_items (priv_q f))
       (forks (run_forks [1, 1, 1, 1, 1]
           bounded_passive)) = [[10], [20]]"
  by (simp add: ev bounded_passive_def)

text \<open>
  What the fan-out does in every state that is reached. When a fetch completes with a
  value, \<^verbatim>\<open>push_nowait\<close> is called on every registered fork, active or passive: the
  value is appended to the buffer of a fork that is not full, and a fork that is full
  keeps its buffer as it is. When a fetch meets the end of the upstream, every registered
  fork is stopped. A fork whose buffer is unbounded and empty at the start misses nothing.
\<close>

lemma forker_fan_out:
  assumes s: "s = run_forks sched (forker_start xs specs)"
  shows "(\<forall>i v rest. i < length (pcs s) \<and> pcs s ! i = InFetch
              \<and> up_items (priv_open_aiter (forker s)) = v # rest \<longrightarrow>
            fetch_next_complete (forker s, forks s) =
              (None,
               (forker s)\<lparr>priv_open_aiter := (priv_open_aiter (forker s))\<lparr>up_items := rest, up_in_flight := 0\<rparr>,
                          priv_is_fetching := 1\<rparr>,
               map (\<lambda>f. if q_aiter_full f
                         then (if priv_full_callback f
                               then f\<lparr>full_callback_calls := full_callback_calls f @ [v]\<rparr> else f)
                         else f\<lparr>priv_q := queue_put (priv_q f) v\<rparr>) (forks s)))
       \<and> (\<forall>i. i < length (pcs s) \<and> pcs s ! i = InFetch
              \<and> up_items (priv_open_aiter (forker s)) = [] \<longrightarrow>
            fetch_next_complete (forker s, forks s) =
              (None,
               (forker s)\<lparr>priv_open_aiter := (priv_open_aiter (forker s))\<lparr>up_in_flight := 0, up_stops := 1\<rparr>,
                          priv_is_fetching := 1\<rparr>,
               map q_aiter_stop (forks s))
            \<and> (\<forall>f\<in>set (map q_aiter_stop (forks s)). priv_stopping f))
       \<and> (\<forall>j. j < length (forks s)
              \<and> q_maxsize (priv_q (forks (forker_start xs specs) ! j)) \<le> 0
              \<and> q_items (priv_q (forks (forker_start xs specs) ! j)) = [] \<longrightarrow>
            seen s ! j @ q_items (priv_q (forks s ! j)) @ up_items (priv_open_aiter (forker s)) = xs)"
proof -
  let ?U = "\<lambda>j. q_maxsize (priv_q (forks (forker_start xs specs) ! j)) \<le> 0
              \<and> q_items (priv_q (forks (forker_start xs specs) ! j)) = []"
  have "fk_inv xs ?U (forker_start xs specs)" by (rule fk_inv_start) simp
  then have inv: "fk_inv xs ?U s" unfolding s by (rule run_forks_inv)
  note d = fk_invD [OF inv]
  have a: "fetch_next_complete (forker s, forks s) =
              (None,
               (forker s)\<lparr>priv_open_aiter := (priv_open_aiter (forker s))\<lparr>up_items := rest, up_in_flight := 0\<rparr>,
                          priv_is_fetching := 1\<rparr>,
               map (\<lambda>f. if q_aiter_full f
                         then (if priv_full_callback f
                               then f\<lparr>full_callback_calls := full_callback_calls f @ [v]\<rparr> else f)
                         else f\<lparr>priv_q := queue_put (priv_q f) v\<rparr>) (forks s))"
    if "i < length (pcs s)" "pcs s ! i = InFetch" "up_items (priv_open_aiter (forker s)) = v # rest"
    for i v rest
  proof -
    note f = in_fetch_facts [OF inv that(1,2)]
    have "map (\<lambda>f. snd (q_aiter_push_nowait f [v])) (forks s) =
          map (\<lambda>f. if q_aiter_full f
                         then (if priv_full_callback f
                               then f\<lparr>full_callback_calls := full_callback_calls f @ [v]\<rparr> else f)
                         else f\<lparr>priv_q := queue_put (priv_q f) v\<rparr>) (forks s)"
    proof (rule map_cong [OF refl])
      fix g assume "g \<in> set (forks s)"
      then obtain j where "j < length (forks s)" "g = forks s ! j" by (auto simp: in_set_conv_nth)
      with f(4) have "\<not> priv_stopping g" by simp
      then show "snd (q_aiter_push_nowait g [v]) =
            (if q_aiter_full g
             then (if priv_full_callback g
                   then g\<lparr>full_callback_calls := full_callback_calls g @ [v]\<rparr> else g)
             else g\<lparr>priv_q := queue_put (priv_q g) v\<rparr>)"
        by simp
    qed
    with step_complete_push(1) [OF inv that] show ?thesis by simp
  qed
  have b: "fetch_next_complete (forker s, forks s) =
              (None,
               (forker s)\<lparr>priv_open_aiter := (priv_open_aiter (forker s))\<lparr>up_in_flight := 0, up_stops := 1\<rparr>,
                          priv_is_fetching := 1\<rparr>,
               map q_aiter_stop (forks s))
            \<and> (\<forall>f\<in>set (map q_aiter_stop (forks s)). priv_stopping f)"
    if "i < length (pcs s)" "pcs s ! i = InFetch" "up_items (priv_open_aiter (forker s)) = []" for i
    using step_complete_stop(1) [OF inv that] by (auto simp: q_aiter_stop_def)
  have c: "seen s ! j @ q_items (priv_q (forks s ! j)) @ up_items (priv_open_aiter (forker s)) = xs"
    if "j < length (forks s)" "?U j" for j
    using d(11) [OF that] by simp
  from a b c show ?thesis by blast
qed

lemma forker_fan_out_example:
  "1 < length (pcs (run_forks [1] bounded_passive))
   \<and> pcs (run_forks [1] bounded_passive) ! 1 = InFetch
   \<and> up_items (priv_open_aiter (forker (run_forks [1] bounded_passive))) = 10 # [20]
   \<and> map (\<lambda>f. q_items (priv_q f))
        (snd (snd (fetch_next_complete
           (forker (run_forks [1] bounded_passive), forks (run_forks [1] bounded_passive)))))
       = [[10], [10]]
   \<and> pcs (run_forks [1, 1, 1, 1, 1, 1, 1] bounded_passive) ! 1 = InFetch
   \<and> up_items (priv_open_aiter (forker (run_forks [1, 1, 1, 1, 1, 1, 1] bounded_passive))) = []
   \<and> map priv_stopping
        (snd (snd (fetch_next_complete
           (forker (run_forks [1, 1, 1, 1, 1, 1, 1] bounded_passive),
            forks (run_forks [1, 1, 1, 1, 1, 1, 1] bounded_passive)))))
       = [True, True]
   \<and> q_maxsize (priv_q (forks bounded_passive ! 1)) \<le> 0
   \<and> q_items (priv_q (forks bounded_passive ! 1)) = []
   \<and> seen (run_forks [1, 1, 1, 1, 1, 1, 1] bounded_passive) ! 1 = [10, 20]"
proof -
  let ?s1 = "run_forks [1] bounded_passive"
  let ?s2 = "run_forks [1, 1, 1, 1, 1, 1, 1] bounded_passive"
  note T1 = forker_fan_out [where sched = "[1]" and xs = "[10::nat, 20]"
      and specs = "[(None, 1, False), (None, 0, True)]", OF refl, folded bounded_passive_def]
  note T2 = forker_fan_out [where sched = "[1, 1, 1, 1, 1, 1, 1]" and xs = "[10::nat, 20]"
      and specs = "[(None, 1, False), (None, 0, True)]", OF refl, folded bounded_passive_def]
  have h1: "1 < length (pcs ?s1) \<and> pcs ?s1 ! 1 = InFetch
      \<and> up_items (priv_open_aiter (forker ?s1)) = 10 # [20]"
    by (simp add: ev bounded_passive_def)
  have h2: "1 < length (pcs ?s2) \<and> pcs ?s2 ! 1 = InFetch
      \<and> up_items (priv_open_aiter (forker ?s2)) = []"
    by (simp add: ev bounded_passive_def)
  have h3: "1 < length (forks ?s2) \<and> q_maxsize (priv_q (forks bounded_passive ! 1)) \<le> 0
      \<and> q_items (priv_q (forks bounded_passive ! 1)) = []"
    by (simp add: ev bounded_passive_def)
  note r1 = T1 [THEN conjunct1, rule_format, OF h1]
  note r2 = T2 [THEN conjunct2, THEN conjunct1, rule_format, OF h2, THEN conjunct1]
  note r3 = T2 [THEN conjunct2, THEN conjunct2, rule_format, OF h3]
  have c1: "map (\<lambda>f. q_items (priv_q f))
        (snd (snd (fetch_next_complete (forker ?s1, forks ?s1)))) = [[10], [10]]"
    unfolding r1 by (simp add: ev bounded_passive_def)
  have c2: "map priv_stopping
        (snd (snd (fetch_next_complete (forker ?s2, forks ?s2)))) = [True, True]"
    unfolding r2 by (simp add: ev bounded_passive_def)
  have c3: "seen ?s2 ! 1 = [10, 20]"
    using r3 by (simp add: ev bounded_passive_def)
  from h1 h2 h3 c1 c2 c3 show ?thesis by blast
qed

text \<open>
  A fork made with the default \<^verbatim>\<open>maxsize\<close> of 0 but with a queue of capacity 1 passed
  as \<^verbatim>\<open>q\<close>: \<^verbatim>\<open>maxsize\<close> is not used, the fork is full after one value, and the second
  value is dropped.
\<close>

theorem default_maxsize_given_queue_counterexample:
  "fst (snd ([(Some (Queue 1), 0::int, False), (None :: nat queue option, 0, True)] ! 0)) = 0
   \<and> q_aiter_full (forks (run_forks [1, 1, 1] given_queue) ! 0)
   \<and> map (\<lambda>f. q_items (priv_q f)) (forks (run_forks [1, 1, 1, 1, 1] given_queue)) = [[10], [20]]
   \<and> seen (run_forks [1, 1, 1, 1, 1, 1, 1, 1, 1, 0, 0] given_queue) = [[10], [10, 20]]
   \<and> pcs (run_forks [1, 1, 1, 1, 1, 1, 1, 1, 1, 0, 0] given_queue) = [Ended, Ended]"
  by (simp add: ev given_queue_def)

text \<open>
  Claim C10 (amended). A fork made by \<^verbatim>\<open>new_fork\<close> with no queue passed and the default
  \<^verbatim>\<open>maxsize\<close> of 0, active or passive, whatever the other forks of the forker are and
  however the consumers are scheduled: in every state that is reached the fork is not
  full, whatever its buffer holds; \<^verbatim>\<open>push_nowait\<close> of a value to it, while it is not
  stopped, appends the value to the buffer and does not take the branch that drops; and
  it loses no value: what it has received, then what waits in its buffer, then what the
  upstream has yet to yield, is the whole stream.
\<close>

theorem default_forks_never_drop:
  assumes s: "s = run_forks sched (forker_start xs specs)"
  shows "\<forall>j. j < length specs \<and> fst (specs ! j) = None \<and> fst (snd (specs ! j)) = 0 \<longrightarrow>
            j < length (forks s)
            \<and> \<not> q_aiter_full (forks s ! j)
            \<and> (\<forall>buf. \<not> queue_full ((priv_q (forks s ! j))\<lparr>q_items := buf\<rparr>))
            \<and> (\<forall>v. \<not> priv_stopping (forks s ! j) \<longrightarrow>
                  q_aiter_push_nowait (forks s ! j) [v] =
                    (None, (forks s ! j)\<lparr>priv_q := queue_put (priv_q (forks s ! j)) v\<rparr>))
            \<and> seen s ! j @ q_items (priv_q (forks s ! j)) @ up_items (priv_open_aiter (forker s)) = xs"
proof (intro allI impI)
  fix j assume h: "j < length specs \<and> fst (specs ! j) = None \<and> fst (snd (specs ! j)) = 0"
  let ?U = "\<lambda>j. j < length specs \<and> fst (specs ! j) = None \<and> fst (snd (specs ! j)) = 0"
  have init: "\<forall>i<length specs. ?U i \<longrightarrow>
             q_maxsize (priv_q (forks (forker_start xs specs) ! i)) \<le> 0
             \<and> q_items (priv_q (forks (forker_start xs specs) ! i)) = []"
    by (auto simp: forker_start_eq forked_aiter_init_simps Queue_def split: prod.splits)
  have i0: "fk_inv xs ?U (forker_start xs specs)"
    by (rule fk_inv_start [OF init])
  then have inv: "fk_inv xs ?U s" unfolding s by (rule run_forks_inv)
  have len: "length (forks s) = length specs"
    unfolding s using run_forks_length [OF i0] by (simp add: forker_start_length)
  with h have j: "j < length (forks s)" by simp
  note d = fk_invD [OF inv]
  from d(11) [OF j h] have m: "q_maxsize (priv_q (forks s ! j)) \<le> 0"
    and k: "seen s ! j @ q_items (priv_q (forks s ! j)) @ up_items (priv_open_aiter (forker s)) = xs"
    by simp_all
  from m have nf: "\<not> q_aiter_full (forks s ! j)"
    and nb: "\<And>buf. \<not> queue_full ((priv_q (forks s ! j))\<lparr>q_items := buf\<rparr>)"
    by (simp_all add: q_aiter_full_def queue_full_def)
  from j nf nb k
  show "j < length (forks s)
            \<and> \<not> q_aiter_full (forks s ! j)
            \<and> (\<forall>buf. \<not> queue_full ((priv_q (forks s ! j))\<lparr>q_items := buf\<rparr>))
            \<and> (\<forall>v. \<not> priv_stopping (forks s ! j) \<longrightarrow>
                  q_aiter_push_nowait (forks s ! j) [v] =
                    (None, (forks s ! j)\<lparr>priv_q := queue_put (priv_q (forks s ! j)) v\<rparr>))
            \<and> seen s ! j @ q_items (priv_q (forks s ! j)) @ up_items (priv_open_aiter (forker s)) = xs"
    by simp
qed

theorem default_forks_never_drop_witness:
  "(1::nat) < length [(Some (Queue 1), 0::int, False), (None :: nat queue option, 0, True)]
   \<and> fst ([(Some (Queue 1), 0::int, False), (None :: nat queue option, 0, True)] ! 1) = None
   \<and> fst (snd ([(Some (Queue 1), 0::int, False), (None :: nat queue option, 0, True)] ! 1)) = 0
   \<and> \<not> priv_stopping (forks (run_forks [1, 1, 1, 1, 1] given_queue) ! 1)
   \<and> seen (run_forks [1, 1, 1, 1, 1] given_queue) ! 1 = [10]
   \<and> q_items (priv_q (forks (run_forks [1, 1, 1, 1, 1] given_queue) ! 1)) = [20]
   \<and> \<not> q_aiter_full (forks (run_forks [1, 1, 1, 1, 1] given_queue) ! 1)
   \<and> fst (q_aiter_push_nowait (forks (run_forks [1, 1, 1, 1, 1] given_queue) ! 1) [30]) = None"
proof -
  let ?s = "run_forks [1, 1, 1, 1, 1] given_queue"
  note T = default_forks_never_drop [where sched = "[1, 1, 1, 1, 1]" and xs = "[10::nat, 20]"
      and specs = "[(Some (Queue 1), 0, False), (None, 0, True)]", OF refl,
      folded given_queue_def]
  have h: "(1::nat) < length [(Some (Queue 1), 0::int, False), (None :: nat queue option, 0, True)]
      \<and> fst ([(Some (Queue 1), 0::int, False), (None :: nat queue option, 0, True)] ! 1) = None
      \<and> fst (snd ([(Some (Queue 1), 0::int, False), (None :: nat queue option, 0, True)] ! 1)) = 0"
    by simp
  have h': "\<not> priv_stopping (forks ?s ! 1)" by (simp add: ev given_queue_def)
  note r = T [rule_format, OF h]
  note r1 = r [THEN conjunct2, THEN conjunct1]
  note r2 = r [THEN conjunct2, THEN conjunct2, THEN conjunct2, THEN conjunct1, rule_format, OF h', of 30]
  have c1: "seen ?s ! 1 = [10]" by (simp add: ev given_queue_def)
  have c2: "q_items (priv_q (forks ?s ! 1)) = [20]" by (simp add: ev given_queue_def)
  have c3: "fst (q_aiter_push_nowait (forks ?s ! 1) [30]) = None"
    unfolding r2 by simp
  from h h' r1 c1 c2 c3 show ?thesis by blast
qed

subsection \<open>Parallel mapping\<close>

lemmas pm_ev = parallel_map_aiter_def sharable_aiter_init_def sharable_aiter_anext_call_def
  sharable_aiter_anext_return_def upstream_init_def upstream_call_def upstream_return_def
  double_or_raise_def

text \<open>
  Claim C2 (what the code does). Two workers of \<^verbatim>\<open>parallel_map_aiter\<close> over a stream
  whose \<^verbatim>\<open>__anext__\<close> does not complete at once: the main job starts the first worker,
  which calls \<^verbatim>\<open>__anext__\<close> of the shared stream, then starts the second, which calls
  it too. \<^verbatim>\<open>sharable_aiter\<close> takes no lock, so both calls of the wrapped stream are in
  flight together: advancing the shared stream is not mutually exclusive.
\<close>

theorem sharable_aiter_overlapping_calls:
  "worker_pcs (run_pm double_or_raise [Main, Worker 0, Main, Worker 1]
      (parallel_map_aiter 2 (upstream_init [PInt 10, PInt 20]))) = [WCalling, WCalling]
   \<and> priv_aiter (shared_aiter (run_pm double_or_raise [Main, Worker 0, Main, Worker 1]
      (parallel_map_aiter 2 (upstream_init [PInt 10, PInt 20]))))
     = \<lparr>up_items = [PInt 10, PInt 20], up_calls = 2, up_in_flight = 2, up_stops = 0\<rparr>"
  by (simp add: pm_ev)

end
